theory Spec2Isabelle
  imports Main "HOL-Library.Word"
begin

section \<open>The telnet user session of the remote console (remcons/user.c)\<close>

text \<open>
  A shallow embedding of \<^verbatim>\<open>uspace/srv/hid/remcons/user.c\<close>. Every operation of the
  module runs with the user's \<^verbatim>\<open>guard\<close> mutex held from entry to exit, so each operation
  is modelled as one atomic state transformer; the mutexes and the condition variable are
  not part of the state.

  The result of an operation has three layers:
  \<^item> \<open>None\<close>: the call never returns (it waits for the transport forever, or loops);
  \<^item> \<open>Some (Inl f)\<close>: the call stops at the fault \<open>f\<close> (failed assertion, null pointer,
    overflow of an \<^verbatim>\<open>int\<close> counter);
  \<^item> \<open>Some (Inr r)\<close>: the call returns \<open>r\<close>.
  An operation that cannot do the first or the second has a plain result.

  Sizes and indices of type \<^verbatim>\<open>size_t\<close> are natural numbers: the indices stay within the
  arrays, and \<^verbatim>\<open>size_t\<close> is taken wide enough for the one product that the module
  computes, \<^verbatim>\<open>3 * size + 1\<close>.
\<close>

subsection \<open>Data\<close>

type_synonym byte = "8 word"

text \<open>A C \<^verbatim>\<open>int\<close>: 32 bits, read as two's complement by \<open>sint\<close>; arithmetic wraps.\<close>

type_synonym cint = "32 word"

text \<open>
  \<^verbatim>\<open>errno_t\<close>: the two codes that user.c names, and any other code that the transport
  may report.
\<close>

datatype errno = EOK | ENOENT | Errno nat

datatype fault = Assert_failed | Null_deref | Int_overflow

text \<open>
  The TCP connection is an external collaborator. Its state here is what it will answer:
  the events that \<^verbatim>\<open>tcp_conn_recv_wait\<close> will report, in order, the return codes of the
  coming \<^verbatim>\<open>tcp_conn_send\<close> calls, in order, and the bytes that the connection has accepted
  for sending so far.
\<close>

datatype tcp_event = Tcp_error errno | Tcp_data "byte list"

record tcp_conn =
  rx_events :: "tcp_event list"
  tx_results :: "errno list"
  tx_wire :: "byte list"

text \<open>
  \<^verbatim>\<open>telnet_user_t\<close> (declared in user.h), with the fields that user.c uses. The two
  arrays are lists of their contents. \<open>srvs_aborted\<close> is \<^verbatim>\<open>srvs.aborted\<close>, and \<open>rows\<close>
  is the unsigned number of rows that the source casts to \<^verbatim>\<open>int\<close>. Two more fields
  stand for the surroundings: \<open>log_lines\<close> collects what \<^verbatim>\<open>telnet_user_log\<close> is given
  and \<open>malloc_results\<close> says whether the coming \<^verbatim>\<open>malloc\<close> calls succeed.
\<close>

record telnet_user =
  service_id :: nat
  conn :: tcp_conn
  socket_buffer :: "byte list"
  socket_buffer_len :: nat
  socket_buffer_pos :: nat
  send_buf :: "byte list"
  send_buf_used :: nat
  task_finished :: bool
  socket_closed :: bool
  srvs_aborted :: bool
  locsrv_connection_count :: cint
  cursor_x :: cint
  cursor_y :: cint
  rows :: nat
  log_lines :: "(byte \<times> byte) list"
  malloc_results :: "bool list"

subsection \<open>Telnet constants (telnet.h)\<close>

text \<open>
  Modelled from the spec: telnet.h is not part of the sources. The spec gives
  \<^verbatim>\<open>IAC = 0xFF\<close> and the option commands \<^verbatim>\<open>WILL=251, WONT=252, DO=253, DONT=254\<close>.
\<close>

definition TELNET_IAC :: byte where
  "TELNET_IAC = 255"

definition TELNET_IS_OPTION_CODE :: "byte \<Rightarrow> bool" where
  "TELNET_IS_OPTION_CODE code \<longleftrightarrow> code = 251 \<or> code = 252 \<or> code = 253 \<or> code = 254"

subsection \<open>The transport\<close>

text \<open>
  Modelled from the spec: the TCP transport's blocking \<^verbatim>\<open>recv_wait(buf, cap) \<rightarrow> (n, err)\<close>.
  The next event decides the answer: an error code, or the bytes received (none at all
  when the peer has closed). With no event left the call waits forever.
\<close>

definition tcp_conn_recv_wait :: "tcp_conn \<Rightarrow> (errno \<times> byte list \<times> tcp_conn) option" where
  "tcp_conn_recv_wait c =
     (case rx_events c of
        [] \<Rightarrow> None
      | Tcp_error rc # es \<Rightarrow> Some (rc, [], c\<lparr>rx_events := es\<rparr>)
      | Tcp_data bs # es \<Rightarrow> Some (EOK, bs, c\<lparr>rx_events := es\<rparr>))"

text \<open>
  Modelled from the spec: the TCP transport's \<^verbatim>\<open>send(buf, n) \<rightarrow> err\<close>. The next return
  code is taken from \<open>tx_results\<close>; once these are used up every call succeeds. A
  successful call puts the bytes on the wire.
\<close>

definition tcp_conn_send :: "tcp_conn \<Rightarrow> byte list \<Rightarrow> errno \<times> tcp_conn" where
  "tcp_conn_send c bs =
     (case tx_results c of
        [] \<Rightarrow> (EOK, c\<lparr>tx_wire := tx_wire c @ bs\<rparr>)
      | rc # rcs \<Rightarrow>
          if rc = EOK then (EOK, c\<lparr>tx_results := rcs, tx_wire := tx_wire c @ bs\<rparr>)
          else (rc, c\<lparr>tx_results := rcs\<rparr>))"

subsection \<open>Receive path\<close>

text \<open>\<^verbatim>\<open>telnet_user_fill_recv_buf\<close> (user.c, lines 190-210).\<close>

definition telnet_user_fill_recv_buf :: "telnet_user \<Rightarrow> (errno \<times> telnet_user) option" where
  "telnet_user_fill_recv_buf user =
     (case tcp_conn_recv_wait (conn user) of
        None \<Rightarrow> None
      | Some (rc, received, c) \<Rightarrow>
          let user1 = user\<lparr>conn := c\<rparr> in
          if rc \<noteq> EOK then Some (rc, user1)
          else if length received = 0 then
            Some (ENOENT, user1\<lparr>socket_closed := True, srvs_aborted := True\<rparr>)
          else
            Some (EOK, user1\<lparr>
              socket_buffer := received @ drop (length received) (socket_buffer user1),
              socket_buffer_len := length received,
              socket_buffer_pos := 0\<rparr>))"

text \<open>
  \<^verbatim>\<open>telnet_user_recv_next_byte_locked\<close> (lines 218-231). The out-parameter \<^verbatim>\<open>*byte\<close>
  is passed in and returned; it keeps its value when the refill fails. The byte is read
  at a position below \<open>socket_buffer_len\<close>, which is within the array whenever the array
  holds \<open>socket_buffer_len\<close> bytes; a refill makes it so.
\<close>

definition telnet_user_recv_next_byte_locked ::
    "telnet_user \<Rightarrow> byte \<Rightarrow> (errno \<times> byte \<times> telnet_user) option" where
  "telnet_user_recv_next_byte_locked user byte =
     (if socket_buffer_len user \<le> socket_buffer_pos user then
        (case telnet_user_fill_recv_buf user of
           None \<Rightarrow> None
         | Some (rc, user1) \<Rightarrow>
             if rc \<noteq> EOK then Some (rc, byte, user1)
             else Some (EOK, socket_buffer user1 ! socket_buffer_pos user1,
                        user1\<lparr>socket_buffer_pos := socket_buffer_pos user1 + 1\<rparr>))
      else Some (EOK, socket_buffer user ! socket_buffer_pos user,
                 user\<lparr>socket_buffer_pos := socket_buffer_pos user + 1\<rparr>))"

text \<open>\<^verbatim>\<open>telnet_user_byte_avail\<close> (lines 238-241).\<close>

definition telnet_user_byte_avail :: "telnet_user \<Rightarrow> bool" where
  "telnet_user_byte_avail user \<longleftrightarrow> socket_buffer_len user > socket_buffer_pos user"

text \<open>
  \<^verbatim>\<open>process_telnet_command\<close> (lines 249-259): both branches only write a log line, with
  the option code when there is one.
\<close>

definition process_telnet_command :: "telnet_user \<Rightarrow> byte \<Rightarrow> byte \<Rightarrow> telnet_user" where
  "process_telnet_command user option_code cmd =
     user\<lparr>log_lines := log_lines user @ [(option_code, cmd)]\<rparr>"

text \<open>
  The body of the inner loop of \<^verbatim>\<open>telnet_user_recv\<close> after the byte has been read
  (lines 292-309). The locals are \<open>inside_telnet_command\<close>, \<open>telnet_option_code\<close> and
  \<open>next_byte\<close>; \<open>byte\<close> is the byte just read, which is also the value of \<open>next_byte\<close>
  on entry.
\<close>

definition skip_telnet_command ::
    "telnet_user \<Rightarrow> bool \<Rightarrow> byte \<Rightarrow> byte \<Rightarrow> bool \<times> byte \<times> byte \<times> telnet_user" where
  "skip_telnet_command user inside_telnet_command telnet_option_code byte =
     (let (inside1, option1, next1, user1) =
            (if inside_telnet_command then
               (if TELNET_IS_OPTION_CODE byte then (True, byte, 0, user)
                else (False, telnet_option_code, 0,
                      process_telnet_command user telnet_option_code byte))
             else (False, telnet_option_code, byte, user))
      in if byte = TELNET_IAC then (True, option1, 0, user1)
         else (inside1, option1, next1, user1))"

text \<open>
  What is left to read without the peer doing anything more: the bytes still in the
  buffer, and for every pending transport event the event itself and its bytes. Every
  successful read of a byte makes it smaller.
\<close>

fun event_weight :: "tcp_event \<Rightarrow> nat" where
  "event_weight (Tcp_error rc) = 1"
| "event_weight (Tcp_data bs) = Suc (length bs)"

definition recv_pending :: "telnet_user \<Rightarrow> nat" where
  "recv_pending user =
     sum_list (map event_weight (rx_events (conn user)))
       + (socket_buffer_len user - socket_buffer_pos user)"

text \<open>
  The inner loop of \<^verbatim>\<open>telnet_user_recv\<close> (lines 285-310), a do-while: read a byte, bail
  out on error, run the command filter, and go round again while \<open>next_byte\<close> is zero and
  a byte is buffered. After the loop only \<open>next_byte\<close> is used.
\<close>

function recv_skip_zeros ::
    "telnet_user \<Rightarrow> bool \<Rightarrow> byte \<Rightarrow> byte \<Rightarrow> (errno \<times> byte \<times> telnet_user) option" where
  "recv_skip_zeros user inside_telnet_command telnet_option_code next_byte =
     (case telnet_user_recv_next_byte_locked user next_byte of
        None \<Rightarrow> None
      | Some (rc, byte, user1) \<Rightarrow>
          if rc \<noteq> EOK then Some (rc, byte, user1)
          else
            (case skip_telnet_command user1 inside_telnet_command telnet_option_code byte of
               (inside2, option2, next2, user2) \<Rightarrow>
                 if next2 = 0 \<and> telnet_user_byte_avail user2
                 then recv_skip_zeros user2 inside2 option2 next2
                 else Some (EOK, next2, user2)))"
  by pat_completeness auto
termination
proof (relation "measure (\<lambda>(user, i, oc, nb). recv_pending user)")
  show "wf (measure (\<lambda>(user, i, oc, nb). recv_pending user))"
    by simp
next
  fix user :: telnet_user and i oc nb r rc r1 byte user1 inside2 r2 option2 r3 next2 user2
  assume rd: "telnet_user_recv_next_byte_locked user nb = Some r"
    and r: "(rc, r1) = r" "(byte, user1) = r1" "\<not> rc \<noteq> EOK"
    and sk: "(inside2, r2) = skip_telnet_command user1 i oc byte"
      "(option2, r3) = r2" "(next2, user2) = r3"
  from rd r have "telnet_user_recv_next_byte_locked user nb = Some (EOK, byte, user1)"
    by auto
  then have "recv_pending user1 < recv_pending user"
    by (auto simp: telnet_user_recv_next_byte_locked_def telnet_user_fill_recv_buf_def
        tcp_conn_recv_wait_def recv_pending_def Let_def
        split: if_splits option.splits list.splits tcp_event.splits)
  moreover from sk have "skip_telnet_command user1 i oc byte = (inside2, option2, next2, user2)"
    by auto
  then have "recv_pending user2 = recv_pending user1"
    by (auto simp: skip_telnet_command_def process_telnet_command_def recv_pending_def
        Let_def split: if_splits)
  ultimately show "((user2, inside2, option2, next2), user, i, oc, nb)
      \<in> measure (\<lambda>(user, i, oc, nb). recv_pending user)"
    by simp
qed

declare recv_skip_zeros.simps [simp del]

text \<open>
  The end of a round of the outer loop of \<^verbatim>\<open>telnet_user_recv\<close> (lines 312-321):
  a carriage return becomes a line feed, and a byte other than zero is stored. \<open>buf\<close> is
  what has been written through \<^verbatim>\<open>bp\<close> so far, so \<^verbatim>\<open>*nread\<close> is its length;
  \<open>sz\<close> is \<^verbatim>\<open>size\<close>, the room left.
\<close>

definition recv_store :: "byte \<Rightarrow> byte list \<Rightarrow> nat \<Rightarrow> byte list \<times> nat" where
  "recv_store next_byte buf sz =
     (let next_byte1 = (if next_byte = 13 then 10 else next_byte)
      in if next_byte1 \<noteq> 0 then (buf @ [next_byte1], sz - 1) else (buf, sz))"

text \<open>
  The outer loop of \<^verbatim>\<open>telnet_user_recv\<close> (lines 278-322), a do-while. Each round
  starts with fresh locals (\<open>next_byte = 0\<close>, \<open>inside_telnet_command = false\<close>,
  \<open>telnet_option_code = 0\<close>).
\<close>

function recv_loop ::
    "telnet_user \<Rightarrow> nat \<Rightarrow> byte list \<Rightarrow> (errno \<times> byte list \<times> telnet_user) option" where
  "recv_loop user sz buf =
     (case recv_skip_zeros user False 0 0 of
        None \<Rightarrow> None
      | Some (rc, next_byte, user1) \<Rightarrow>
          if rc \<noteq> EOK then Some (rc, buf, user1)
          else
            (case recv_store next_byte buf sz of
               (buf1, sz1) \<Rightarrow>
                 if sz1 > 0 \<and> (telnet_user_byte_avail user1 \<or> length buf1 = 0)
                 then recv_loop user1 sz1 buf1
                 else Some (EOK, buf1, user1)))"
  by pat_completeness auto
termination
proof (relation "measure (\<lambda>(user, sz, buf). recv_pending user)")
  show "wf (measure (\<lambda>(user, sz, buf). recv_pending user))"
    by simp
next
  fix user :: telnet_user and sz :: nat and buf :: "byte list"
    and r rc r1 next_byte user1 and buf1 :: "byte list" and sz1 :: nat
  assume sk: "recv_skip_zeros user False 0 0 = Some r"
    and r: "(rc, r1) = r" "(next_byte, user1) = r1" "\<not> rc \<noteq> EOK"
  have pending: "recv_pending u' < recv_pending u"
    if "recv_skip_zeros u i oc nb = Some (EOK, nb', u')" for u i oc nb nb' u'
    using that
  proof (induction u i oc nb rule: recv_skip_zeros.induct)
    case (1 u i oc nb)
    from "1.prems" obtain byte u1 where
      rd: "telnet_user_recv_next_byte_locked u nb = Some (EOK, byte, u1)"
      by (subst (asm) recv_skip_zeros.simps) (auto split: option.splits if_splits)
    obtain i2 oc2 nb2 u2 where
      st: "skip_telnet_command u1 i oc byte = (i2, oc2, nb2, u2)"
      by (cases "skip_telnet_command u1 i oc byte") auto
    from rd have "recv_pending u1 < recv_pending u"
      by (auto simp: telnet_user_recv_next_byte_locked_def telnet_user_fill_recv_buf_def
          tcp_conn_recv_wait_def recv_pending_def Let_def
          split: if_splits option.splits list.splits tcp_event.splits)
    moreover from st have "recv_pending u2 = recv_pending u1"
      by (auto simp: skip_telnet_command_def process_telnet_command_def recv_pending_def
          Let_def split: if_splits)
    ultimately have lt: "recv_pending u2 < recv_pending u"
      by simp
    show ?case
    proof (cases "nb2 = 0 \<and> telnet_user_byte_avail u2")
      case True
      with "1.prems" rd st have "recv_skip_zeros u2 i2 oc2 nb2 = Some (EOK, nb', u')"
        by (subst (asm) recv_skip_zeros.simps) simp
      with "1.IH" [OF rd refl refl _ st [symmetric] refl refl True] lt show ?thesis
        by simp
    next
      case False
      with "1.prems" rd st have "u' = u2"
        by (subst (asm) recv_skip_zeros.simps) auto
      with lt show ?thesis by simp
    qed
  qed
  from sk r have "recv_skip_zeros user False 0 0 = Some (EOK, next_byte, user1)"
    by auto
  from pending [OF this] show "((user1, sz1, buf1), user, sz, buf)
      \<in> measure (\<lambda>(user, sz, buf). recv_pending user)"
    by simp
qed

declare recv_loop.simps [simp del]

text \<open>
  \<^verbatim>\<open>telnet_user_recv\<close> (lines 269-326): the assertion on \<^verbatim>\<open>size\<close>, then the loop. The
  result is the return code, the bytes written to \<^verbatim>\<open>buf\<close> (\<^verbatim>\<open>*nread\<close> of them) and
  the user.
\<close>

definition telnet_user_recv ::
    "telnet_user \<Rightarrow> nat \<Rightarrow> (fault + errno \<times> byte list \<times> telnet_user) option" where
  "telnet_user_recv user sz =
     (if \<not> sz > 0 then Some (Inl Assert_failed)
      else (case recv_loop user sz [] of
              None \<Rightarrow> None
            | Some r \<Rightarrow> Some (Inr r)))"

subsection \<open>Send path\<close>

text \<open>
  \<open>sizeof_send_buf\<close> is \<^verbatim>\<open>sizeof(user->send_buf)\<close>, that is \<^verbatim>\<open>SEND_BUF_SIZE\<close> of
  user.h, which is not part of the sources: it is a parameter of the send path.

  The flush of a full buffer in \<^verbatim>\<open>telnet_user_send_raw_locked\<close> (lines 337-345):
  the result is the return code, the user and the new value of \<open>remain\<close>.
\<close>

definition send_buf_full :: "nat \<Rightarrow> telnet_user \<Rightarrow> nat \<Rightarrow> errno \<times> telnet_user \<times> nat" where
  "send_buf_full sizeof_send_buf user remain =
     (if remain = 0 then
        (case tcp_conn_send (conn user) (take sizeof_send_buf (send_buf user)) of
           (rc, c) \<Rightarrow>
             if rc \<noteq> EOK then (rc, user\<lparr>conn := c\<rparr>, remain)
             else (EOK, user\<lparr>conn := c, send_buf_used := 0\<rparr>, sizeof_send_buf))
      else (EOK, user, remain))"

text \<open>
  The copy into the buffer (lines 348-349): \<^verbatim>\<open>memcpy\<close> of the bytes \<open>chunk\<close> to
  position \<open>send_buf_used\<close>, which then moves on.
\<close>

definition send_buf_append :: "telnet_user \<Rightarrow> byte list \<Rightarrow> telnet_user" where
  "send_buf_append user chunk =
     user\<lparr>send_buf := take (send_buf_used user) (send_buf user) @ chunk
                       @ drop (send_buf_used user + length chunk) (send_buf user),
          send_buf_used := send_buf_used user + length chunk\<rparr>"

text \<open>
  The loop of \<^verbatim>\<open>telnet_user_send_raw_locked\<close> (lines 336-353). \<open>data\<close> holds the
  \<^verbatim>\<open>size\<close> bytes that remain to be copied. With a buffer of size zero the loop of the
  source does not end unless a send fails, hence the result \<open>None\<close> there.
\<close>

partial_function (option) send_raw_loop ::
    "nat \<Rightarrow> telnet_user \<Rightarrow> nat \<Rightarrow> byte list \<Rightarrow> (errno \<times> telnet_user) option" where
  "send_raw_loop sizeof_send_buf user remain data =
     (if length data > 0 then
        (case send_buf_full sizeof_send_buf user remain of
           (rc, user1, remain1) \<Rightarrow>
             if rc \<noteq> EOK then Some (rc, user1)
             else
               (case min remain1 (length data) of now \<Rightarrow>
                  send_raw_loop sizeof_send_buf (send_buf_append user1 (take now data))
                    (remain1 - now) (drop now data)))
      else Some (EOK, user))"

declare send_raw_loop.simps [code]

text \<open>
  \<^verbatim>\<open>telnet_user_send_raw_locked\<close> (lines 328-356). The subtraction is the one of the
  source as long as \<open>send_buf_used\<close> is at most the size of the buffer.
\<close>

definition telnet_user_send_raw_locked ::
    "nat \<Rightarrow> telnet_user \<Rightarrow> byte list \<Rightarrow> (errno \<times> telnet_user) option" where
  "telnet_user_send_raw_locked sizeof_send_buf user data =
     send_raw_loop sizeof_send_buf user (sizeof_send_buf - send_buf_used user) data"

text \<open>
  The conversion loop of \<^verbatim>\<open>telnet_user_send_data_locked\<close> (lines 372-387), by
  recursion on the bytes of \<open>data\<close> that are left; \<open>converted\<close> is the scratch buffer
  filled so far. The byte \<^verbatim>\<open>'\b'\<close> is 8.
\<close>

fun convert_newlines :: "telnet_user \<Rightarrow> byte list \<Rightarrow> byte list \<Rightarrow> byte list \<times> telnet_user" where
  "convert_newlines user [] converted = (converted, user)"
| "convert_newlines user (d # data) converted =
     (if d = 10 then
        convert_newlines
          (user\<lparr>cursor_x := 0,
                cursor_y := (if cursor_y user <s word_of_nat (rows user) - 1
                             then cursor_y user + 1 else cursor_y user)\<rparr>)
          data (converted @ [13, 10])
      else
        convert_newlines
          (user\<lparr>cursor_x := (if d = 8 then cursor_x user - 1 else cursor_x user + 1)\<rparr>)
          data (converted @ [d]))"

text \<open>\<^verbatim>\<open>malloc\<close>: the next entry of \<open>malloc_results\<close>; with none left it succeeds.\<close>

definition malloc :: "telnet_user \<Rightarrow> bool \<times> telnet_user" where
  "malloc user =
     (case malloc_results user of
        [] \<Rightarrow> (True, user)
      | ok # rest \<Rightarrow> (ok, user\<lparr>malloc_results := rest\<rparr>))"

text \<open>The largest value of a C \<^verbatim>\<open>int\<close>.\<close>

definition INT_MAX :: nat where
  "INT_MAX = 2147483647"

text \<open>
  \<^verbatim>\<open>telnet_user_send_data_locked\<close> (lines 364-394). The scratch buffer is asserted. The
  counter \<^verbatim>\<open>converted_size\<close> is an \<^verbatim>\<open>int\<close>: counting past \<open>INT_MAX\<close> is a fault.
\<close>

definition telnet_user_send_data_locked ::
    "nat \<Rightarrow> telnet_user \<Rightarrow> byte list \<Rightarrow> (fault + errno \<times> telnet_user) option" where
  "telnet_user_send_data_locked sizeof_send_buf user data =
     (case malloc user of
        (converted_ok, user0) \<Rightarrow>
          if \<not> converted_ok then Some (Inl Assert_failed)
          else
            (case convert_newlines user0 data [] of
               (converted, user1) \<Rightarrow>
                 if length converted > INT_MAX then Some (Inl Int_overflow)
                 else
                   (case telnet_user_send_raw_locked sizeof_send_buf user1 converted of
                      None \<Rightarrow> None
                    | Some r \<Rightarrow> Some (Inr r))))"

text \<open>\<^verbatim>\<open>telnet_user_send_data\<close> (lines 402-412).\<close>

definition telnet_user_send_data ::
    "nat \<Rightarrow> telnet_user \<Rightarrow> byte list \<Rightarrow> (fault + errno \<times> telnet_user) option" where
  "telnet_user_send_data sizeof_send_buf user data =
     telnet_user_send_data_locked sizeof_send_buf user data"

text \<open>\<^verbatim>\<open>telnet_user_send_raw\<close> (lines 420-430).\<close>

definition telnet_user_send_raw ::
    "nat \<Rightarrow> telnet_user \<Rightarrow> byte list \<Rightarrow> (fault + errno \<times> telnet_user) option" where
  "telnet_user_send_raw sizeof_send_buf user data =
     (case telnet_user_send_raw_locked sizeof_send_buf user data of
        None \<Rightarrow> None
      | Some r \<Rightarrow> Some (Inr r))"

text \<open>\<^verbatim>\<open>telnet_user_flush\<close> (lines 432-447).\<close>

definition telnet_user_flush :: "telnet_user \<Rightarrow> errno \<times> telnet_user" where
  "telnet_user_flush user =
     (case tcp_conn_send (conn user) (take (send_buf_used user) (send_buf user)) of
        (rc, c) \<Rightarrow>
          if rc \<noteq> EOK then (rc, user\<lparr>conn := c\<rparr>)
          else (EOK, user\<lparr>conn := c, send_buf_used := 0\<rparr>))"

text \<open>
  \<^verbatim>\<open>telnet_user_update_cursor_x\<close> (lines 456-467). The return code of the send is
  ignored.
\<close>

definition telnet_user_update_cursor_x ::
    "nat \<Rightarrow> telnet_user \<Rightarrow> cint \<Rightarrow> (fault + telnet_user) option" where
  "telnet_user_update_cursor_x sizeof_send_buf user new_x =
     (if cursor_x user - 1 = new_x then
        (case telnet_user_send_data_locked sizeof_send_buf user [8] of
           None \<Rightarrow> None
         | Some (Inl f) \<Rightarrow> Some (Inl f)
         | Some (Inr (rc, user1)) \<Rightarrow> Some (Inr (user1\<lparr>cursor_x := new_x\<rparr>)))
      else Some (Inr (user\<lparr>cursor_x := new_x\<rparr>)))"

subsection \<open>Registry and lifecycle\<close>

text \<open>
  The global list \<^verbatim>\<open>users\<close> is a list of users; a pointer to a user of the list is its
  position, and \<open>None\<close> is \<^verbatim>\<open>NULL\<close>.

  The \<^verbatim>\<open>list_foreach\<close> loop of \<^verbatim>\<open>telnet_user_get_for_client_connection\<close>
  (lines 133-138): the first user with the service id, searching from position \<open>i\<close>.
\<close>

fun users_find :: "telnet_user list \<Rightarrow> nat \<Rightarrow> nat \<Rightarrow> nat option" where
  "users_find [] i ident = None"
| "users_find (tmp # rest) i ident =
     (if service_id tmp = ident then Some i else users_find rest (Suc i) ident)"

text \<open>
  \<^verbatim>\<open>telnet_user_get_for_client_connection\<close> (lines 128-162). In the refusal branch the
  source first sets \<^verbatim>\<open>user = NULL\<close> and then decrements the counter through \<^verbatim>\<open>user\<close>:
  the call stops there, at a null pointer. The list is returned as it is at that point.
\<close>

definition telnet_user_get_for_client_connection ::
    "telnet_user list \<Rightarrow> nat \<Rightarrow> (fault + nat option) \<times> telnet_user list" where
  "telnet_user_get_for_client_connection users ident =
     (case users_find users 0 ident of
        None \<Rightarrow> (Inr None, users)
      | Some tmp \<Rightarrow>
          let user = users ! tmp;
              user1 = user\<lparr>locsrv_connection_count := locsrv_connection_count user + 1\<rparr>;
              users1 = users[tmp := user1]
          in if task_finished user1 \<or> socket_closed user1 then (Inl Null_deref, users1)
             else (Inr (Some tmp), users1))"

text \<open>\<^verbatim>\<open>telnet_user_notify_client_disconnected\<close> (lines 168-175).\<close>

definition telnet_user_notify_client_disconnected :: "telnet_user \<Rightarrow> fault + telnet_user" where
  "telnet_user_notify_client_disconnected user =
     (if \<not> 0 <s locsrv_connection_count user then Inl Assert_failed
      else Inr (user\<lparr>locsrv_connection_count := locsrv_connection_count user - 1\<rparr>))"

text \<open>\<^verbatim>\<open>telnet_user_is_zombie\<close> (lines 181-188).\<close>

definition telnet_user_is_zombie :: "telnet_user \<Rightarrow> bool" where
  "telnet_user_is_zombie user \<longleftrightarrow> socket_closed user \<or> task_finished user"

text \<open>
  \<^verbatim>\<open>telnet_user_create\<close> (lines 65-100), for a successful allocation: the fields that
  the source sets. The ones it leaves as allocated (the two arrays, \<^verbatim>\<open>srvs\<close>, \<^verbatim>\<open>rows\<close>)
  are parameters; \<open>unset_id\<close> is \<^verbatim>\<open>(service_id_t) -1\<close>.
\<close>

definition telnet_user_create ::
    "tcp_conn \<Rightarrow> nat \<Rightarrow> byte list \<Rightarrow> byte list \<Rightarrow> bool \<Rightarrow> nat \<Rightarrow> telnet_user" where
  "telnet_user_create c unset_id socket_buffer0 send_buf0 aborted0 rows0 =
     \<lparr>service_id = unset_id,
      conn = c,
      socket_buffer = socket_buffer0,
      socket_buffer_len = 0,
      socket_buffer_pos = 0,
      send_buf = send_buf0,
      send_buf_used = 0,
      task_finished = False,
      socket_closed = False,
      srvs_aborted = aborted0,
      locsrv_connection_count = 0,
      cursor_x = 0,
      cursor_y = 0,
      rows = rows0,
      log_lines = [],
      malloc_results = []\<rparr>"

text \<open>
  A new user on a connection with the given pending events and send results, an unset
  service id, zeroed arrays of the given sizes and a terminal of 25 rows.
\<close>

definition new_user :: "nat \<Rightarrow> nat \<Rightarrow> tcp_event list \<Rightarrow> errno list \<Rightarrow> telnet_user" where
  "new_user buffer_size sizeof_send_buf events results =
     telnet_user_create \<lparr>rx_events = events, tx_results = results, tx_wire = []\<rparr>
       4294967295 (replicate buffer_size 0) (replicate sizeof_send_buf 0) False 25"

subsection \<open>Notions used in the statements\<close>

text \<open>
  The bytes submitted so far, in order: what the connection has accepted, followed by
  what waits in the send buffer.
\<close>

definition tx_stream :: "telnet_user \<Rightarrow> byte list" where
  "tx_stream user = tx_wire (conn user) @ take (send_buf_used user) (send_buf user)"

text \<open>The connection accepts everything: none of the coming sends fails.\<close>

definition tx_accepts :: "telnet_user \<Rightarrow> bool" where
  "tx_accepts user \<longleftrightarrow> list_all (\<lambda>rc. rc = EOK) (tx_results (conn user))"

text \<open>\<open>S\<close> with every LF (10) replaced by CR LF (13 10).\<close>

definition lf_to_crlf :: "byte list \<Rightarrow> byte list" where
  "lf_to_crlf S = concat (map (\<lambda>b. if b = 10 then [13, 10] else [b]) S)"

text \<open>
  The cursor after one byte of output, in the words of the specification: a backspace
  takes one off the column, with no bound at 0; a line feed sets the column to 0 and
  adds one to the row while the row is below \<open>rows - 1\<close>; any other byte adds one to the
  column. Column and row are C \<^verbatim>\<open>int\<close>s.
\<close>

definition cursor_after_byte :: "nat \<Rightarrow> cint \<times> cint \<Rightarrow> byte \<Rightarrow> cint \<times> cint" where
  "cursor_after_byte nrows xy b =
     (case xy of (x, y) \<Rightarrow>
        if b = 8 then (x - 1, y)
        else if b = 10 then (0, if sint y < int nrows - 1 then y + 1 else y)
        else (x + 1, y))"

text \<open>A byte that may be delivered to the caller of \<open>telnet_user_recv\<close>.\<close>

definition deliverable :: "byte \<Rightarrow> bool" where
  "deliverable b \<longleftrightarrow> b \<noteq> 0 \<and> b \<noteq> 13 \<and> b \<noteq> 255"

text \<open>
  The bytes that the next reads will see: the rest of the buffer, or the bytes of the
  next event of the transport when the buffer is drained.
\<close>

definition upcoming :: "telnet_user \<Rightarrow> byte list" where
  "upcoming user =
     (if telnet_user_byte_avail user
      then drop (socket_buffer_pos user) (take (socket_buffer_len user) (socket_buffer user))
      else (case rx_events (conn user) of Tcp_data bs # es \<Rightarrow> bs | _ \<Rightarrow> []))"

text \<open>What is delivered for bytes without IAC: the zeros are left out and CR becomes LF.\<close>

definition nul_cr_decoded :: "byte list \<Rightarrow> byte list" where
  "nul_cr_decoded bs = map (\<lambda>b. if b = 13 then 10 else b) (filter (\<lambda>b. b \<noteq> 0) bs)"

text \<open>
  The bounds on the indices, for a receive buffer of \<open>buffer_size\<close> bytes
  (\<^verbatim>\<open>BUFFER_SIZE\<close> of user.h) and a send buffer of \<open>sizeof_send_buf\<close> bytes.
\<close>

definition buffers_ok :: "nat \<Rightarrow> nat \<Rightarrow> telnet_user \<Rightarrow> bool" where
  "buffers_ok buffer_size sizeof_send_buf user \<longleftrightarrow>
     0 \<le> socket_buffer_pos user \<and> socket_buffer_pos user \<le> socket_buffer_len user
     \<and> socket_buffer_len user \<le> buffer_size
     \<and> 0 \<le> send_buf_used user \<and> send_buf_used user \<le> sizeof_send_buf"

text \<open>
  The transport keeps to the capacity it is given: \<^verbatim>\<open>tcp_conn_recv_wait\<close> is called
  with \<^verbatim>\<open>BUFFER_SIZE\<close> and never reports more bytes than that.
\<close>

fun event_within_cap :: "nat \<Rightarrow> tcp_event \<Rightarrow> bool" where
  "event_within_cap cap (Tcp_error rc) = True"
| "event_within_cap cap (Tcp_data bs) = (length bs \<le> cap)"

definition tcp_within_cap :: "nat \<Rightarrow> telnet_user \<Rightarrow> bool" where
  "tcp_within_cap cap user \<longleftrightarrow> list_all (event_within_cap cap) (rx_events (conn user))"

text \<open>The part of the bounds that the receive path works on.\<close>

definition recv_ok :: "nat \<Rightarrow> telnet_user \<Rightarrow> bool" where
  "recv_ok cap user \<longleftrightarrow>
     socket_buffer_pos user \<le> socket_buffer_len user \<and> socket_buffer_len user \<le> cap
     \<and> tcp_within_cap cap user"

text \<open>
  A function of the user that does not look at the connection or at the send buffer:
  the send path leaves its value as it is.
\<close>

definition send_frame :: "(telnet_user \<Rightarrow> 'a) \<Rightarrow> bool" where
  "send_frame f \<longleftrightarrow>
     (\<forall>u c. f (u\<lparr>conn := c\<rparr>) = f u) \<and> (\<forall>u b. f (u\<lparr>send_buf := b\<rparr>) = f u)
       \<and> (\<forall>u n. f (u\<lparr>send_buf_used := n\<rparr>) = f u)"









section \<open>Properties\<close>

subsection \<open>Reasoning about the receive loops\<close>

lemma recv_skip_zeros_unfold:
  "recv_skip_zeros user i oc nb = Some (rc, nb', user') \<Longrightarrow>
     (\<exists>rc1 byte user1. telnet_user_recv_next_byte_locked user nb = Some (rc1, byte, user1)
        \<and> (if rc1 \<noteq> EOK then rc = rc1 \<and> nb' = byte \<and> user' = user1
           else (\<exists>i2 oc2 nb2 user2.
                   skip_telnet_command user1 i oc byte = (i2, oc2, nb2, user2)
                   \<and> (if nb2 = 0 \<and> telnet_user_byte_avail user2
                       then recv_skip_zeros user2 i2 oc2 nb2 = Some (rc, nb', user')
                       else rc = EOK \<and> nb' = nb2 \<and> user' = user2))))"
  by (subst (asm) recv_skip_zeros.simps) (auto split: option.splits if_splits prod.splits)

lemma recv_skip_zeros_cases [consumes 1, case_names err last again]:
  assumes run: "recv_skip_zeros user i oc nb = Some (rc, nb', user')"
    and err: "\<And>user i oc nb rc byte user1.
        telnet_user_recv_next_byte_locked user nb = Some (rc, byte, user1) \<Longrightarrow> rc \<noteq> EOK \<Longrightarrow>
        P user i oc nb rc byte user1"
    and last: "\<And>user i oc nb byte user1 i2 oc2 nb2 user2.
        telnet_user_recv_next_byte_locked user nb = Some (EOK, byte, user1) \<Longrightarrow>
        skip_telnet_command user1 i oc byte = (i2, oc2, nb2, user2) \<Longrightarrow>
        \<not> (nb2 = 0 \<and> telnet_user_byte_avail user2) \<Longrightarrow>
        P user i oc nb EOK nb2 user2"
    and again: "\<And>user i oc nb byte user1 i2 oc2 user2 rc nb' user'.
        telnet_user_recv_next_byte_locked user nb = Some (EOK, byte, user1) \<Longrightarrow>
        skip_telnet_command user1 i oc byte = (i2, oc2, 0, user2) \<Longrightarrow>
        telnet_user_byte_avail user2 \<Longrightarrow>
        recv_skip_zeros user2 i2 oc2 0 = Some (rc, nb', user') \<Longrightarrow>
        P user2 i2 oc2 0 rc nb' user' \<Longrightarrow>
        P user i oc nb rc nb' user'"
  shows "P user i oc nb rc nb' user'"
  using run
proof (induction user i oc nb rule: recv_skip_zeros.induct)
  case (1 user i oc nb)
  from recv_skip_zeros_unfold [OF "1.prems"] obtain rc1 byte user1 where
    rd: "telnet_user_recv_next_byte_locked user nb = Some (rc1, byte, user1)"
    and rest: "if rc1 \<noteq> EOK then rc = rc1 \<and> nb' = byte \<and> user' = user1
           else (\<exists>i2 oc2 nb2 user2.
                   skip_telnet_command user1 i oc byte = (i2, oc2, nb2, user2)
                   \<and> (if nb2 = 0 \<and> telnet_user_byte_avail user2
                       then recv_skip_zeros user2 i2 oc2 nb2 = Some (rc, nb', user')
                       else rc = EOK \<and> nb' = nb2 \<and> user' = user2))"
    by blast
  show ?case
  proof (cases "rc1 = EOK")
    case False
    with rd rest err [of user nb rc1 byte user1 i oc] show ?thesis by auto
  next
    case True
    with rest obtain i2 oc2 nb2 user2 where
      sk: "skip_telnet_command user1 i oc byte = (i2, oc2, nb2, user2)"
      and fin: "if nb2 = 0 \<and> telnet_user_byte_avail user2
                       then recv_skip_zeros user2 i2 oc2 nb2 = Some (rc, nb', user')
                       else rc = EOK \<and> nb' = nb2 \<and> user' = user2"
      by auto
    show ?thesis
    proof (cases "nb2 = 0 \<and> telnet_user_byte_avail user2")
      case False
      with rd sk fin True last [of user nb byte user1 i oc i2 oc2 nb2 user2] show ?thesis
        by auto
    next
      case t: True
      with fin have rec: "recv_skip_zeros user2 i2 oc2 nb2 = Some (rc, nb', user')" by simp
      have "P user2 i2 oc2 nb2 rc nb' user'"
        using "1.IH" [OF _ refl refl _ sk [symmetric] refl refl t rec] rd True by simp
      with again [of user nb byte user1 i oc i2 oc2 user2 rc nb' user'] rd sk t rec True
      show ?thesis by auto
    qed
  qed
qed

lemma recv_loop_cases [consumes 1, case_names err last again]:
  assumes run: "recv_loop user sz buf = Some (rc, buf', user')"
    and err: "\<And>user sz buf rc nb user1.
        recv_skip_zeros user False 0 0 = Some (rc, nb, user1) \<Longrightarrow> rc \<noteq> EOK \<Longrightarrow>
        P user sz buf rc buf user1"
    and last: "\<And>user sz buf nb user1 buf1 sz1.
        recv_skip_zeros user False 0 0 = Some (EOK, nb, user1) \<Longrightarrow>
        recv_store nb buf sz = (buf1, sz1) \<Longrightarrow>
        \<not> (sz1 > 0 \<and> (telnet_user_byte_avail user1 \<or> length buf1 = 0)) \<Longrightarrow>
        P user sz buf EOK buf1 user1"
    and again: "\<And>user sz buf nb user1 buf1 sz1 rc buf' user'.
        recv_skip_zeros user False 0 0 = Some (EOK, nb, user1) \<Longrightarrow>
        recv_store nb buf sz = (buf1, sz1) \<Longrightarrow>
        sz1 > 0 \<Longrightarrow> telnet_user_byte_avail user1 \<or> length buf1 = 0 \<Longrightarrow>
        recv_loop user1 sz1 buf1 = Some (rc, buf', user') \<Longrightarrow>
        P user1 sz1 buf1 rc buf' user' \<Longrightarrow>
        P user sz buf rc buf' user'"
  shows "P user sz buf rc buf' user'"
  using run
proof (induction user sz buf rule: recv_loop.induct)
  case (1 user sz buf)
  from "1.prems" obtain rc1 nb user1 where
    sk: "recv_skip_zeros user False 0 0 = Some (rc1, nb, user1)"
    by (subst (asm) recv_loop.simps) (auto split: option.splits)
  obtain buf1 sz1 where st: "recv_store nb buf sz = (buf1, sz1)"
    by (cases "recv_store nb buf sz") auto
  show ?case
  proof (cases "rc1 = EOK")
    case False
    with "1.prems" sk have "rc = rc1 \<and> buf' = buf \<and> user' = user1"
      by (subst (asm) recv_loop.simps) simp
    with False sk err [of user rc1 nb user1 sz buf] show ?thesis by simp
  next
    case True
    show ?thesis
    proof (cases "sz1 > 0 \<and> (telnet_user_byte_avail user1 \<or> length buf1 = 0)")
      case False
      with "1.prems" sk st True have "rc = EOK \<and> buf' = buf1 \<and> user' = user1"
        by (subst (asm) recv_loop.simps) auto
      with False sk st True last [of user nb user1 buf sz buf1 sz1] show ?thesis
        by simp
    next
      case t: True
      with "1.prems" sk st True have rec: "recv_loop user1 sz1 buf1 = Some (rc, buf', user')"
        by (subst (asm) recv_loop.simps) simp
      have "P user1 sz1 buf1 rc buf' user'"
        using "1.IH" [OF sk [unfolded True] refl refl _ st [symmetric] t rec]
        by simp
      with again [of user nb user1 buf sz buf1 sz1 rc buf' user'] sk st t rec True
      show ?thesis by simp
    qed
  qed
qed

subsection \<open>Delivered bytes\<close>

lemma skip_telnet_command_next:
  "skip_telnet_command user i oc byte = (i2, oc2, nb2, user2) \<Longrightarrow>
     nb2 \<noteq> 255 \<and> (nb2 = 0 \<or> nb2 = byte)"
  by (auto simp: skip_telnet_command_def TELNET_IAC_def Let_def split: if_splits)

lemma recv_skip_zeros_not_iac:
  "recv_skip_zeros user i oc nb = Some (rc, nb', user') \<Longrightarrow> rc = EOK \<longrightarrow> nb' \<noteq> 255"
proof (induction rule: recv_skip_zeros_cases)
  case (err user i oc nb rc byte user1)
  then show ?case by simp
next
  case (last user i oc nb byte user1 i2 oc2 nb2 user2)
  then show ?case using skip_telnet_command_next by blast
next
  case (again user i oc nb byte user1 i2 oc2 user2 rc nb' user')
  then show ?case by simp
qed

lemma recv_store_deliverable:
  "recv_store nb buf sz = (buf1, sz1) \<Longrightarrow> nb \<noteq> 255 \<Longrightarrow> list_all deliverable buf \<Longrightarrow>
     list_all deliverable buf1"
  by (auto simp: recv_store_def deliverable_def Let_def split: if_splits)

lemma recv_loop_deliverable:
  "recv_loop user sz buf = Some (rc, buf', user') \<Longrightarrow> list_all deliverable buf \<Longrightarrow>
     list_all deliverable buf'"
proof (induction rule: recv_loop_cases)
  case (err user sz buf rc nb user1)
  then show ?case by simp
next
  case (last user sz buf nb user1 buf1 sz1)
  then show ?case
    using recv_skip_zeros_not_iac recv_store_deliverable by blast
next
  case (again user sz buf nb user1 buf1 sz1 rc buf' user')
  then show ?case
    using recv_skip_zeros_not_iac recv_store_deliverable by blast
qed

lemma recv_store_room:
  "recv_store nb buf sz = (buf1, sz1) \<Longrightarrow> 0 < sz \<Longrightarrow>
     (0 < sz1 \<or> buf1 \<noteq> []) \<and> (buf \<noteq> [] \<longrightarrow> buf1 \<noteq> [])"
  by (auto simp: recv_store_def Let_def split: if_splits)

lemma recv_loop_nonempty:
  "recv_loop user sz buf = Some (rc, buf', user') \<Longrightarrow> 0 < sz \<Longrightarrow> rc = EOK \<Longrightarrow> buf' \<noteq> []"
proof (induction rule: recv_loop_cases)
  case (err user sz buf rc nb user1)
  then show ?case by simp
next
  case (last user sz buf nb user1 buf1 sz1)
  then show ?case using recv_store_room [of nb buf sz buf1 sz1] by auto
next
  case (again user sz buf nb user1 buf1 sz1 rc buf' user')
  then show ?case by simp
qed

lemma recv_skip_zeros_avail:
  "recv_skip_zeros user i oc nb = Some (rc, nb', user') \<Longrightarrow>
     telnet_user_byte_avail user \<longrightarrow> rc = EOK"
proof (induction rule: recv_skip_zeros_cases)
  case (err user i oc nb rc byte user1)
  then show ?case
    by (auto simp: telnet_user_recv_next_byte_locked_def telnet_user_byte_avail_def
        split: if_splits)
next
  case (last user i oc nb byte user1 i2 oc2 nb2 user2)
  then show ?case by simp
next
  case (again user i oc nb byte user1 i2 oc2 user2 rc nb' user')
  then show ?case by simp
qed

lemma recv_loop_error_empty:
  "recv_loop user sz buf = Some (rc, buf', user') \<Longrightarrow>
     telnet_user_byte_avail user \<or> buf = [] \<Longrightarrow> rc \<noteq> EOK \<Longrightarrow> buf' = []"
proof (induction rule: recv_loop_cases)
  case (err user sz buf rc nb user1)
  then show ?case using recv_skip_zeros_avail by blast
next
  case (last user sz buf nb user1 buf1 sz1)
  then show ?case by simp
next
  case (again user sz buf nb user1 buf1 sz1 rc buf' user')
  then show ?case by simp
qed

lemmas recv_eval =
  telnet_user_recv_def recv_loop.simps recv_skip_zeros.simps recv_store_def
  telnet_user_recv_next_byte_locked_def telnet_user_fill_recv_buf_def tcp_conn_recv_wait_def
  skip_telnet_command_def process_telnet_command_def telnet_user_byte_avail_def
  TELNET_IAC_def TELNET_IS_OPTION_CODE_def new_user_def telnet_user_create_def

text \<open>A chunk without commands: what is delivered from it.\<close>

lemma recv_next_byte_upcoming:
  assumes "upcoming user = b # rest" and "socket_buffer_len user \<le> length (socket_buffer user)"
  shows "\<exists>user'. telnet_user_recv_next_byte_locked user nb = Some (EOK, b, user')
      \<and> (telnet_user_byte_avail user' \<longleftrightarrow> rest \<noteq> [])
      \<and> (rest \<noteq> [] \<longrightarrow> upcoming user' = rest)
      \<and> socket_buffer_len user' \<le> length (socket_buffer user')"
proof (cases "telnet_user_byte_avail user")
  case True
  let ?u = "user\<lparr>socket_buffer_pos := socket_buffer_pos user + 1\<rparr>"
  from True assms have
    d: "drop (socket_buffer_pos user) (take (socket_buffer_len user) (socket_buffer user))
        = b # rest"
    by (simp add: upcoming_def)
  then have b: "socket_buffer user ! socket_buffer_pos user = b"
    using True assms(2)
    by (metis Cons_nth_drop_Suc drop_eq_Nil2 leD list.distinct(1) list.inject nth_take
        telnet_user_byte_avail_def not_less)
  from d have r: "drop (Suc (socket_buffer_pos user))
        (take (socket_buffer_len user) (socket_buffer user)) = rest"
    by (metis drop_Suc list.sel(3) tl_drop)
  have rd: "telnet_user_recv_next_byte_locked user nb = Some (EOK, b, ?u)"
    using True b by (simp add: telnet_user_recv_next_byte_locked_def telnet_user_byte_avail_def)
  have av: "telnet_user_byte_avail ?u \<longleftrightarrow> rest \<noteq> []"
    using r assms(2) by (auto simp: telnet_user_byte_avail_def)
  have "upcoming ?u = rest" if "rest \<noteq> []"
    using that av r by (simp add: upcoming_def)
  with rd av assms(2) show ?thesis
    by auto
next
  case False
  with assms(1) obtain es where ev: "rx_events (conn user) = Tcp_data (b # rest) # es"
    by (auto simp: upcoming_def split: list.splits tcp_event.splits)
  let ?u = "user\<lparr>conn := (conn user)\<lparr>rx_events := es\<rparr>,
      socket_buffer := (b # rest) @ drop (length (b # rest)) (socket_buffer user),
      socket_buffer_len := length (b # rest), socket_buffer_pos := 1\<rparr>"
  have rd: "telnet_user_recv_next_byte_locked user nb = Some (EOK, b, ?u)"
    using False ev
    by (simp add: telnet_user_recv_next_byte_locked_def telnet_user_byte_avail_def
        telnet_user_fill_recv_buf_def tcp_conn_recv_wait_def)
  have av: "telnet_user_byte_avail ?u \<longleftrightarrow> rest \<noteq> []"
    by (auto simp: telnet_user_byte_avail_def)
  have "upcoming ?u = rest" if "rest \<noteq> []"
    using that av by (simp add: upcoming_def)
  with rd av show ?thesis
    by auto
qed

lemma skip_telnet_command_plain:
  "byte \<noteq> 255 \<Longrightarrow> skip_telnet_command user False oc byte = (False, oc, byte, user)"
  by (simp add: skip_telnet_command_def TELNET_IAC_def)

lemma recv_skip_zeros_plain:
  assumes "upcoming user = rem" and "rem \<noteq> []" and "255 \<notin> set rem"
    and "socket_buffer_len user \<le> length (socket_buffer user)"
  shows "\<exists>user'. recv_skip_zeros user False oc nb
        = Some (EOK, (case dropWhile (\<lambda>b. b = 0) rem of [] \<Rightarrow> 0 | b # rest \<Rightarrow> b), user')
      \<and> (telnet_user_byte_avail user' \<longleftrightarrow> tl (dropWhile (\<lambda>b. b = 0) rem) \<noteq> [])
      \<and> (telnet_user_byte_avail user' \<longrightarrow> upcoming user' = tl (dropWhile (\<lambda>b. b = 0) rem))
      \<and> socket_buffer_len user' \<le> length (socket_buffer user')"
  using assms
proof (induction rem arbitrary: user nb)
  case Nil
  then show ?case by simp
next
  case (Cons b rest)
  from recv_next_byte_upcoming [OF Cons.prems(1) Cons.prems(4), of nb] obtain user1 where
    rd: "telnet_user_recv_next_byte_locked user nb = Some (EOK, b, user1)"
    and av: "telnet_user_byte_avail user1 \<longleftrightarrow> rest \<noteq> []"
    and up: "rest \<noteq> [] \<longrightarrow> upcoming user1 = rest"
    and len: "socket_buffer_len user1 \<le> length (socket_buffer user1)"
    by blast
  from Cons.prems(3) have b: "b \<noteq> 255" and rest: "255 \<notin> set rest"
    by auto
  note sk = skip_telnet_command_plain [OF b, of user1 oc]
  show ?case
  proof (cases "b = 0 \<and> rest \<noteq> []")
    case True
    with av up have "upcoming user1 = rest" "telnet_user_byte_avail user1"
      by simp_all
    from Cons.IH [OF this(1) _ rest len, of 0] True obtain user' where
      ih: "recv_skip_zeros user1 False oc 0
          = Some (EOK, (case dropWhile (\<lambda>b. b = 0) rest of [] \<Rightarrow> 0 | b # rest \<Rightarrow> b), user')"
      "telnet_user_byte_avail user' \<longleftrightarrow> tl (dropWhile (\<lambda>b. b = 0) rest) \<noteq> []"
      "telnet_user_byte_avail user' \<longrightarrow> upcoming user' = tl (dropWhile (\<lambda>b. b = 0) rest)"
      "socket_buffer_len user' \<le> length (socket_buffer user')"
      by blast
    have "recv_skip_zeros user False oc nb = recv_skip_zeros user1 False oc 0"
      using rd sk True av by (subst recv_skip_zeros.simps) simp
    with ih True show ?thesis
      by simp
  next
    case False
    have "recv_skip_zeros user False oc nb = Some (EOK, b, user1)"
      using rd sk False av by (subst recv_skip_zeros.simps) auto
    with False av up len show ?thesis
      by (cases "b = 0") auto
  qed
qed

lemma recv_loop_plain:
  assumes "upcoming user = rem" and "rem \<noteq> []" and "255 \<notin> set rem"
    and "socket_buffer_len user \<le> length (socket_buffer user)"
    and "0 < sz" and "buf \<noteq> [] \<or> nul_cr_decoded rem \<noteq> []"
  shows "\<exists>user'. recv_loop user sz buf = Some (EOK, buf @ take sz (nul_cr_decoded rem), user')"
  using assms
proof (induction "length rem" arbitrary: user rem sz buf rule: less_induct)
  case less
  let ?r = "dropWhile (\<lambda>b. b = 0) rem"
  from recv_skip_zeros_plain [OF less.prems(1-4), of 0 0] obtain user1 where
    sk: "recv_skip_zeros user False 0 0
        = Some (EOK, (case ?r of [] \<Rightarrow> 0 | b # rest \<Rightarrow> b), user1)"
    and av: "telnet_user_byte_avail user1 \<longleftrightarrow> tl ?r \<noteq> []"
    and up: "telnet_user_byte_avail user1 \<longrightarrow> upcoming user1 = tl ?r"
    and len: "socket_buffer_len user1 \<le> length (socket_buffer user1)"
    by blast
  have dec: "nul_cr_decoded rem = nul_cr_decoded ?r"
    by (induction rem) (simp_all add: nul_cr_decoded_def)
  show ?case
  proof (cases ?r)
    case Nil
    with dec have "nul_cr_decoded rem = []"
      by (simp add: nul_cr_decoded_def)
    with less.prems(6) have "buf \<noteq> []"
      by simp
    with sk av Nil less.prems(5) have "recv_loop user sz buf = Some (EOK, buf, user1)"
      by (subst recv_loop.simps) (simp add: recv_store_def)
    with \<open>nul_cr_decoded rem = []\<close> show ?thesis
      by simp
  next
    case (Cons b rest)
    then have b: "b \<noteq> 0"
      by (metis (mono_tags, lifting) dropWhile_eq_Cons_conv)
    let ?d = "if b = 13 then 10 else b"
    from dec Cons b have d: "nul_cr_decoded rem = ?d # nul_cr_decoded rest"
      by (simp add: nul_cr_decoded_def)
    from b have st: "recv_store b buf sz = (buf @ [?d], sz - 1)"
      by (simp add: recv_store_def)
    show ?thesis
    proof (cases "0 < sz - 1 \<and> rest \<noteq> []")
      case True
      with av up Cons have u1: "upcoming user1 = rest"
        by simp
      have "length rest < length rem"
        using Cons length_dropWhile_le [of "\<lambda>b. b = 0" rem] by simp
      moreover have "255 \<notin> set rest"
        using less.prems(3) Cons set_dropWhileD [of 255 "\<lambda>b. b = 0" rem] by auto
      ultimately obtain user' where
        "recv_loop user1 (sz - 1) (buf @ [?d])
          = Some (EOK, (buf @ [?d]) @ take (sz - 1) (nul_cr_decoded rest), user')"
        using less.hyps [OF _ u1 _ _ len, of "sz - 1" "buf @ [?d]"] True by auto
      moreover have "recv_loop user sz buf = recv_loop user1 (sz - 1) (buf @ [?d])"
        using sk st av Cons True by (subst recv_loop.simps) simp
      moreover have "take sz (?d # nul_cr_decoded rest) = ?d # take (sz - 1) (nul_cr_decoded rest)"
        using less.prems(5) by (cases sz) simp_all
      ultimately show ?thesis
        using d by simp
    next
      case False
      have "recv_loop user sz buf = Some (EOK, buf @ [?d], user1)"
        using sk st av Cons False by (subst recv_loop.simps) auto
      moreover have "take sz (?d # nul_cr_decoded rest) = [?d]"
      proof (cases "rest = []")
        case True
        with less.prems(5) show ?thesis
          by (cases sz) (simp_all add: nul_cr_decoded_def)
      next
        case r: False
        with False have "sz = 1"
          using less.prems(5) by simp
        then show ?thesis by simp
      qed
      ultimately show ?thesis
        using d by simp
    qed
  qed
qed

lemma recv_plain_chunk:
  assumes "\<not> telnet_user_byte_avail user" and "rx_events (conn user) = Tcp_data bs # es"
    and "255 \<notin> set bs" and "nul_cr_decoded bs \<noteq> []"
    and "socket_buffer_len user \<le> length (socket_buffer user)" and "0 < sz"
  shows "\<exists>user'. telnet_user_recv user sz = Some (Inr (EOK, take sz (nul_cr_decoded bs), user'))"
proof -
  from assms(1,2) have "upcoming user = bs"
    by (simp add: upcoming_def)
  moreover from assms(4) have "bs \<noteq> []"
    by (auto simp: nul_cr_decoded_def)
  ultimately obtain user' where
    "recv_loop user sz [] = Some (EOK, [] @ take sz (nul_cr_decoded bs), user')"
    using recv_loop_plain [of user bs sz "[]"] assms(3-6) by blast
  with assms(6) show ?thesis
    by (simp add: telnet_user_recv_def)
qed

text \<open>
  C3: whatever the peer sends, no byte that \<open>telnet_user_recv\<close> writes to the caller's
  buffer is 0, 13 or 255. And when the buffer is drained and the transport next reports
  bytes without IAC, not all of them zero, the call delivers these bytes with the zeros
  left out and every CR turned into LF, as many of them as the caller has room for.
\<close>

theorem recv_never_delivers_nul_cr_iac:
  "(\<forall>sz rc buf user'. telnet_user_recv user sz = Some (Inr (rc, buf, user')) \<longrightarrow>
      (\<forall>b \<in> set buf. b \<noteq> 0 \<and> b \<noteq> 13 \<and> b \<noteq> 255))
   \<and> (\<forall>sz bs es. 0 < sz \<and> \<not> telnet_user_byte_avail user
         \<and> socket_buffer_len user \<le> length (socket_buffer user)
         \<and> rx_events (conn user) = Tcp_data bs # es
         \<and> 255 \<notin> set bs \<and> nul_cr_decoded bs \<noteq> [] \<longrightarrow>
      (\<exists>user'. telnet_user_recv user sz
          = Some (Inr (EOK, take sz (nul_cr_decoded bs), user'))))"
proof (intro conjI allI impI)
  fix sz :: nat and rc buf user'
  assume "telnet_user_recv user sz = Some (Inr (rc, buf, user'))"
  then have "recv_loop user sz [] = Some (rc, buf, user')"
    by (auto simp: telnet_user_recv_def split: if_splits option.splits)
  from recv_loop_deliverable [OF this] have "list_all deliverable buf"
    by simp
  then show "\<forall>b \<in> set buf. b \<noteq> 0 \<and> b \<noteq> 13 \<and> b \<noteq> 255"
    by (simp add: list_all_iff deliverable_def)
next
  fix sz :: nat and bs es
  assume "0 < sz \<and> \<not> telnet_user_byte_avail user
      \<and> socket_buffer_len user \<le> length (socket_buffer user)
      \<and> rx_events (conn user) = Tcp_data bs # es
      \<and> 255 \<notin> set bs \<and> nul_cr_decoded bs \<noteq> []"
  then show "\<exists>user'. telnet_user_recv user sz
      = Some (Inr (EOK, take sz (nul_cr_decoded bs), user'))"
    using recv_plain_chunk [of user bs es sz] by simp
qed

theorem recv_never_delivers_nul_cr_iac_witness:
  "telnet_user_recv (new_user 4 4 [Tcp_data [0x78, 0x0D, 0x00, 0x79]] []) 4
     = Some (Inr (EOK, [0x78, 0x0A, 0x79],
         (new_user 4 4 [] [])\<lparr>socket_buffer := [0x78, 0x0D, 0x00, 0x79],
            socket_buffer_len := 4, socket_buffer_pos := 4\<rparr>))
   \<and> set [0x78, 0x0A, 0x79 :: byte] \<inter> {0, 13, 255} = {}
   \<and> \<not> telnet_user_byte_avail (new_user 4 4 [Tcp_data [0x78, 0x0D, 0x00, 0x79]] [])
   \<and> 255 \<notin> set [0x78, 0x0D, 0x00, 0x79 :: byte]
   \<and> take 4 (nul_cr_decoded [0x78, 0x0D, 0x00, 0x79]) = [0x78, 0x0A, 0x79]"
proof -
  let ?u = "new_user 4 4 [Tcp_data [0x78, 0x0D, 0x00, 0x79]] []"
  have run: "telnet_user_recv ?u 4
     = Some (Inr (EOK, [0x78, 0x0A, 0x79],
         (new_user 4 4 [] [])\<lparr>socket_buffer := [0x78, 0x0D, 0x00, 0x79],
            socket_buffer_len := 4, socket_buffer_pos := 4\<rparr>))"
    by (simp add: recv_eval)
  have pre: "(0::nat) < 4 \<and> \<not> telnet_user_byte_avail ?u
      \<and> socket_buffer_len ?u \<le> length (socket_buffer ?u)
      \<and> rx_events (conn ?u) = Tcp_data [0x78, 0x0D, 0x00, 0x79] # []
      \<and> 255 \<notin> set [0x78, 0x0D, 0x00, 0x79 :: byte]
      \<and> nul_cr_decoded [0x78, 0x0D, 0x00, 0x79] \<noteq> []"
    by (simp add: telnet_user_byte_avail_def new_user_def telnet_user_create_def
        nul_cr_decoded_def)
  from recv_never_delivers_nul_cr_iac [of ?u, THEN conjunct1, rule_format, OF run]
  have a: "set [0x78, 0x0A, 0x79 :: byte] \<inter> {0, 13, 255} = {}"
    by auto
  from recv_never_delivers_nul_cr_iac [of ?u, THEN conjunct2, rule_format, OF pre] run
  have b: "take 4 (nul_cr_decoded [0x78, 0x0D, 0x00, 0x79]) = [0x78, 0x0A, 0x79]"
    by simp
  from run a b pre show ?thesis
    by simp
qed

text \<open>
  C5: a call of \<open>telnet_user_recv\<close> with room for at least one byte that returns \<open>EOK\<close>
  has delivered at least one byte, and one that returns an error has delivered none.
\<close>

theorem recv_success_delivers_a_byte:
  "0 < sz \<Longrightarrow> telnet_user_recv user sz = Some (Inr (rc, buf, user')) \<Longrightarrow>
     (rc = EOK \<longrightarrow> 1 \<le> length buf) \<and> (rc \<noteq> EOK \<longrightarrow> buf = [])"
proof -
  assume sz: "0 < sz" and "telnet_user_recv user sz = Some (Inr (rc, buf, user'))"
  then have run: "recv_loop user sz [] = Some (rc, buf, user')"
    by (auto simp: telnet_user_recv_def split: if_splits option.splits)
  have "rc = EOK \<longrightarrow> buf \<noteq> []"
    using recv_loop_nonempty [OF run sz] by simp
  moreover have "rc \<noteq> EOK \<longrightarrow> buf = []"
    using recv_loop_error_empty [OF run] by simp
  ultimately show ?thesis
    by (cases buf) auto
qed

theorem recv_success_delivers_a_byte_witness:
  "(0::nat) < 4
   \<and> (\<exists>user'. telnet_user_recv (new_user 4 4 [Tcp_data [0, 0], Tcp_data [0xFF, 0xF1, 0x41]] []) 4
         = Some (Inr (EOK, [0x41], user')))
   \<and> 1 \<le> length [0x41 :: byte]"
proof -
  have run: "telnet_user_recv (new_user 4 4 [Tcp_data [0, 0], Tcp_data [0xFF, 0xF1, 0x41]] []) 4
     = Some (Inr (EOK, [0x41],
         (new_user 4 4 [] [])\<lparr>socket_buffer := [0xFF, 0xF1, 0x41, 0],
            socket_buffer_len := 3, socket_buffer_pos := 3, log_lines := [(0, 0xF1)]\<rparr>))"
    by (simp add: recv_eval)
  have sz: "(0::nat) < 4" by simp
  from recv_success_delivers_a_byte [OF sz run] run show ?thesis
    by simp
qed

subsection \<open>The send loop\<close>

lemma send_raw_loop_cases [consumes 1, case_names stop fail step]:
  assumes run: "send_raw_loop sbs user remain data = Some (rc, user')"
    and stop: "\<And>user remain. P user remain [] EOK user"
    and fail: "\<And>user remain data rc user1 remain1.
        data \<noteq> [] \<Longrightarrow> send_buf_full sbs user remain = (rc, user1, remain1) \<Longrightarrow> rc \<noteq> EOK \<Longrightarrow>
        P user remain data rc user1"
    and step: "\<And>user remain data user1 remain1 now rc user'.
        data \<noteq> [] \<Longrightarrow> send_buf_full sbs user remain = (EOK, user1, remain1) \<Longrightarrow>
        now = min remain1 (length data) \<Longrightarrow>
        P (send_buf_append user1 (take now data)) (remain1 - now) (drop now data) rc user' \<Longrightarrow>
        P user remain data rc user'"
  shows "P user remain data rc user'"
proof -
  let ?Q = "\<lambda>s u rm d r. s = sbs \<longrightarrow> P u rm d (fst r) (snd r)"
  have "?Q sbs user remain data (rc, user')"
  proof (rule send_raw_loop.raw_induct [where P = ?Q, OF _ run])
    fix loop s u rm d r
    assume IH: "\<And>a b c e y. loop a b c e = Some y \<Longrightarrow> a = sbs \<longrightarrow> P b c e (fst y) (snd y)"
      and body: "(if 0 < length d
         then case send_buf_full s u rm of
              (rc, user1, remain1) \<Rightarrow>
                if rc \<noteq> EOK then Some (rc, user1)
                else loop s (send_buf_append user1 (take (min remain1 (length d)) d))
                      (remain1 - min remain1 (length d)) (drop (min remain1 (length d)) d)
         else Some (EOK, u)) = Some r"
    show "s = sbs \<longrightarrow> P u rm d (fst r) (snd r)"
    proof
      assume s: "s = sbs"
      show "P u rm d (fst r) (snd r)"
      proof (cases "d = []")
        case True
        with body stop show ?thesis by auto
      next
        case False
        obtain rc1 user1 remain1 where
          full: "send_buf_full sbs u rm = (rc1, user1, remain1)"
          by (cases "send_buf_full sbs u rm") auto
        show ?thesis
        proof (cases "rc1 = EOK")
          case f: False
          with body False full s have "r = (rc1, user1)" by simp
          with fail [OF False full f] show ?thesis by simp
        next
          case t: True
          define now where "now = min remain1 (length d)"
          from body False full s t have rec:
            "loop sbs (send_buf_append user1 (take now d)) (remain1 - now) (drop now d) = Some r"
            by (simp add: now_def)
          from IH [OF rec] have
            "P (send_buf_append user1 (take now d)) (remain1 - now) (drop now d) (fst r) (snd r)"
            by simp
          from step [OF False full [unfolded t] now_def this] show ?thesis .
        qed
      qed
    qed
  qed
  then show ?thesis by simp
qed

text \<open>With a buffer that is not empty the loop ends: every round takes at least one byte.\<close>

lemma send_raw_loop_returns:
  "0 < sbs \<Longrightarrow> \<exists>r. send_raw_loop sbs user remain data = Some r"
proof (induction "length data" arbitrary: user remain data rule: less_induct)
  case less
  show ?case
  proof (cases "data = []")
    case True
    then show ?thesis by (subst send_raw_loop.simps) simp
  next
    case False
    obtain rc1 user1 remain1 where
      full: "send_buf_full sbs user remain = (rc1, user1, remain1)"
      by (cases "send_buf_full sbs user remain") auto
    show ?thesis
    proof (cases "rc1 = EOK")
      case f: False
      with False full show ?thesis by (subst send_raw_loop.simps) simp
    next
      case True
      from full True less.prems have "0 < remain1"
        by (auto simp: send_buf_full_def split: if_splits prod.splits)
      with False have "length (drop (min remain1 (length data)) data) < length data"
        by (cases data) auto
      from less.hyps [OF this less.prems] False full True show ?thesis
        by (subst send_raw_loop.simps) simp
    qed
  qed
qed

lemma send_buf_full_frame:
  "send_buf_full sbs user remain = (rc, user1, remain1) \<Longrightarrow> send_frame f \<Longrightarrow> f user1 = f user"
  by (auto simp: send_buf_full_def send_frame_def split: if_splits prod.splits)

lemma send_buf_append_frame:
  "send_frame f \<Longrightarrow> f (send_buf_append user chunk) = f user"
  by (simp add: send_buf_append_def send_frame_def)

lemma send_raw_loop_frame:
  "send_raw_loop sbs user remain data = Some (rc, user') \<Longrightarrow> send_frame f \<Longrightarrow> f user' = f user"
proof (induction rule: send_raw_loop_cases)
  case (stop user remain)
  then show ?case by simp
next
  case (fail user remain data rc user1 remain1)
  then show ?case using send_buf_full_frame by blast
next
  case (step user remain data user1 remain1 now rc user')
  then show ?case
    using send_buf_full_frame [of sbs user remain EOK user1 remain1 f]
    by (simp add: send_buf_append_frame)
qed

lemma send_frame_fields:
  "send_frame cursor_x" "send_frame cursor_y" "send_frame rows"
  "send_frame socket_closed" "send_frame srvs_aborted" "send_frame task_finished"
  "send_frame socket_buffer_len" "send_frame socket_buffer_pos" "send_frame socket_buffer"
  "send_frame malloc_results" "send_frame locsrv_connection_count" "send_frame service_id"
  "send_frame log_lines"
  by (simp_all add: send_frame_def)

text \<open>The bound on \<open>send_buf_used\<close> and the size of the array.\<close>

lemma send_buf_full_used:
  "send_buf_full sbs user remain = (EOK, user1, remain1) \<Longrightarrow>
     send_buf_used user + remain = sbs \<Longrightarrow>
     send_buf_used user1 + remain1 = sbs \<and> send_buf user1 = send_buf user"
  by (auto simp: send_buf_full_def split: if_splits prod.splits)

lemma send_buf_full_fail:
  "send_buf_full sbs user remain = (rc, user1, remain1) \<Longrightarrow> rc \<noteq> EOK \<Longrightarrow>
     send_buf_used user1 = send_buf_used user \<and> send_buf user1 = send_buf user
       \<and> tx_wire (conn user1) = tx_wire (conn user) \<and> remain = 0"
  by (auto simp: send_buf_full_def tcp_conn_send_def split: if_splits prod.splits list.splits)

lemma send_raw_loop_used:
  "send_raw_loop sbs user remain data = Some (rc, user') \<Longrightarrow>
     send_buf_used user + remain = sbs \<Longrightarrow> send_buf_used user' \<le> sbs"
proof (induction rule: send_raw_loop_cases)
  case (stop user remain)
  then show ?case by simp
next
  case (fail user remain data rc user1 remain1)
  then show ?case using send_buf_full_fail [of sbs user remain rc user1 remain1] by simp
next
  case (step user remain data user1 remain1 now rc user')
  from send_buf_full_used [OF step(2) step(5)] step(3)
  have "send_buf_used (send_buf_append user1 (take now data)) + (remain1 - now) = sbs"
    by (auto simp: send_buf_append_def)
  with step(4) show ?case by simp
qed

lemma send_raw_loop_length:
  "send_raw_loop sbs user remain data = Some (rc, user') \<Longrightarrow>
     send_buf_used user + remain = sbs \<Longrightarrow> length (send_buf user) = sbs \<Longrightarrow>
     length (send_buf user') = sbs"
proof (induction rule: send_raw_loop_cases)
  case (stop user remain)
  then show ?case by simp
next
  case (fail user remain data rc user1 remain1)
  then show ?case using send_buf_full_fail [of sbs user remain rc user1 remain1] by simp
next
  case (step user remain data user1 remain1 now rc user')
  from send_buf_full_used [OF step(2) step(5)] step(3) step(6)
  have "send_buf_used (send_buf_append user1 (take now data)) + (remain1 - now) = sbs"
    and "length (send_buf (send_buf_append user1 (take now data))) = sbs"
    by (auto simp: send_buf_append_def)
  with step(4) show ?case by simp
qed

subsection \<open>The stream of bytes sent\<close>

lemma tcp_conn_send_ok:
  "tcp_conn_send c bs = (EOK, c') \<Longrightarrow> tx_wire c' = tx_wire c @ bs"
  by (auto simp: tcp_conn_send_def split: list.splits if_splits)

lemma send_buf_full_stream:
  "send_buf_full sbs user remain = (EOK, user1, remain1) \<Longrightarrow>
     send_buf_used user + remain = sbs \<Longrightarrow> tx_stream user1 = tx_stream user"
  by (auto simp: send_buf_full_def tx_stream_def dest: tcp_conn_send_ok
      split: if_splits prod.splits)

lemma send_buf_append_stream:
  "send_buf_used user \<le> length (send_buf user) \<Longrightarrow>
     tx_stream (send_buf_append user chunk) = tx_stream user @ chunk"
  by (simp add: send_buf_append_def tx_stream_def)

lemma send_raw_loop_stream:
  "send_raw_loop sbs user remain data = Some (rc, user') \<Longrightarrow>
     send_buf_used user + remain = sbs \<Longrightarrow> length (send_buf user) = sbs \<Longrightarrow>
     rc = EOK \<Longrightarrow> tx_stream user' = tx_stream user @ data"
proof (induction rule: send_raw_loop_cases)
  case (stop user remain)
  then show ?case by simp
next
  case (fail user remain data rc user1 remain1)
  then show ?case by simp
next
  case (step user remain data user1 remain1 now rc user')
  from send_buf_full_used [OF step(2) step(5)] step(6)
  have u1: "send_buf_used user1 + remain1 = sbs" "length (send_buf user1) = sbs"
    by simp_all
  with step(3)
  have "send_buf_used (send_buf_append user1 (take now data)) + (remain1 - now) = sbs"
    and "length (send_buf (send_buf_append user1 (take now data))) = sbs"
    by (auto simp: send_buf_append_def)
  with step(4) step(7)
  have "tx_stream user' = tx_stream (send_buf_append user1 (take now data)) @ drop now data"
    by simp
  also have "tx_stream (send_buf_append user1 (take now data)) = tx_stream user1 @ take now data"
    using u1 by (intro send_buf_append_stream) simp
  also have "tx_stream user1 = tx_stream user"
    using send_buf_full_stream [OF step(2) step(5)] .
  finally show ?case by simp
qed

lemma send_buf_full_accepts:
  "send_buf_full sbs user remain = (rc, user1, remain1) \<Longrightarrow> tx_accepts user \<Longrightarrow>
     rc = EOK \<and> tx_accepts user1"
  by (auto simp: send_buf_full_def tcp_conn_send_def tx_accepts_def
      split: if_splits prod.splits list.splits)

lemma send_raw_loop_accepts:
  "send_raw_loop sbs user remain data = Some (rc, user') \<Longrightarrow> tx_accepts user \<Longrightarrow>
     rc = EOK \<and> tx_accepts user'"
proof (induction rule: send_raw_loop_cases)
  case (stop user remain)
  then show ?case by simp
next
  case (fail user remain data rc user1 remain1)
  then show ?case using send_buf_full_accepts by blast
next
  case (step user remain data user1 remain1 now rc user')
  from send_buf_full_accepts [OF step(2) step(5)]
  have "tx_accepts (send_buf_append user1 (take now data))"
    by (simp add: tx_accepts_def send_buf_append_def)
  with step(4) show ?case by simp
qed

subsection \<open>The conversion of line feeds\<close>

lemma convert_newlines_converted:
  "fst (convert_newlines user data converted) = converted @ lf_to_crlf data"
  by (induction user data converted rule: convert_newlines.induct)
    (simp_all add: lf_to_crlf_def)

lemma convert_newlines_frame:
  "(\<And>u x. f (u\<lparr>cursor_x := x\<rparr>) = f u) \<Longrightarrow> (\<And>u y. f (u\<lparr>cursor_y := y\<rparr>) = f u) \<Longrightarrow>
     f (snd (convert_newlines user data converted)) = f user"
  by (induction user data converted rule: convert_newlines.induct) simp_all

subsection \<open>The cursor\<close>

lemma rows_minus_one:
  assumes "nrows < 2 ^ 31"
  shows "sint (word_of_nat nrows - 1 :: cint) = int nrows - 1"
proof -
  have w: "(word_of_nat nrows - 1 :: cint) = word_of_int (int nrows - 1)"
    by (simp only: word_of_int_minus [symmetric] of_int_of_nat_eq of_int_1 of_int_diff)
  have "signed_take_bit 31 (int nrows - 1) = int nrows - 1"
    using assms by (intro signed_take_bit_int_eq_self) auto
  then have "sint (word_of_int (int nrows - 1) :: cint) = int nrows - 1"
    by (simp only: sint_sbintrunc') simp
  with w show ?thesis by (simp only:)
qed

lemma convert_newlines_cursor:
  "rows user < 2 ^ 31 \<Longrightarrow>
     (cursor_x (snd (convert_newlines user data converted)),
      cursor_y (snd (convert_newlines user data converted)))
       = foldl (cursor_after_byte (rows user)) (cursor_x user, cursor_y user) data"
proof (induction user data converted rule: convert_newlines.induct)
  case (1 user converted)
  then show ?case by simp
next
  case (2 user d data converted)
  show ?case
  proof (cases "d = 10")
    case True
    let ?u1 = "user\<lparr>cursor_x := 0,
                cursor_y := (if cursor_y user <s word_of_nat (rows user) - 1
                             then cursor_y user + 1 else cursor_y user)\<rparr>"
    have "(cursor_x ?u1, cursor_y ?u1)
        = cursor_after_byte (rows user) (cursor_x user, cursor_y user) d"
      using True "2.prems" by (simp add: cursor_after_byte_def word_sless_alt rows_minus_one)
    moreover have "convert_newlines user (d # data) converted
        = convert_newlines ?u1 data (converted @ [13, 10])"
      using True by simp
    moreover have "rows ?u1 = rows user"
      by simp
    ultimately show ?thesis
      using "2.IH"(1) [OF True] "2.prems" by simp
  next
    case False
    let ?u1 = "user\<lparr>cursor_x := (if d = 8 then cursor_x user - 1 else cursor_x user + 1)\<rparr>"
    have "(cursor_x ?u1, cursor_y ?u1)
        = cursor_after_byte (rows user) (cursor_x user, cursor_y user) d"
      using False by (simp add: cursor_after_byte_def)
    moreover have "convert_newlines user (d # data) converted
        = convert_newlines ?u1 data (converted @ [d])"
      using False by simp
    moreover have "rows ?u1 = rows user"
      by simp
    ultimately show ?thesis
      using "2.IH"(2) [OF False] "2.prems" by simp
  qed
qed

subsection \<open>Sending data\<close>

lemma malloc_frame:
  "(\<And>u m. f (u\<lparr>malloc_results := m\<rparr>) = f u) \<Longrightarrow> f (snd (malloc user)) = f user"
  by (simp add: malloc_def split: list.splits)

lemma send_data_locked_Inr:
  assumes "telnet_user_send_data_locked sbs user data = Some (Inr (rc, user'))"
  shows "fst (malloc user) \<and> length (lf_to_crlf data) \<le> INT_MAX
    \<and> send_raw_loop sbs (snd (convert_newlines (snd (malloc user)) data []))
          (sbs - send_buf_used user) (lf_to_crlf data) = Some (rc, user')"
proof -
  obtain ok user0 where m: "malloc user = (ok, user0)"
    by (cases "malloc user") auto
  obtain converted user1 where c: "convert_newlines user0 data [] = (converted, user1)"
    by (cases "convert_newlines user0 data []") auto
  have conv: "converted = lf_to_crlf data"
    using convert_newlines_converted [of user0 data "[]"] c by simp
  have "send_buf_used user1 = send_buf_used user0"
    using convert_newlines_frame [of send_buf_used user0 data "[]"] c by simp
  moreover have "send_buf_used user0 = send_buf_used user"
    using malloc_frame [of send_buf_used user] m by simp
  ultimately have used: "send_buf_used user1 = send_buf_used user"
    by simp
  from assms m c conv used show ?thesis
    by (auto simp: telnet_user_send_data_locked_def telnet_user_send_raw_locked_def
        split: if_splits option.splits)
qed

lemma send_data_prepared:
  assumes "(\<And>u m. f (u\<lparr>malloc_results := m\<rparr>) = f u)"
    and "(\<And>u x. f (u\<lparr>cursor_x := x\<rparr>) = f u)" and "(\<And>u y. f (u\<lparr>cursor_y := y\<rparr>) = f u)"
  shows "f (snd (convert_newlines (snd (malloc user)) data [])) = f user"
  using convert_newlines_frame [of f "snd (malloc user)" data "[]"] malloc_frame [of f user] assms
  by simp

lemma send_data_locked_stream:
  assumes run: "telnet_user_send_data_locked sbs user data = Some (Inr (rc, user'))"
    and used: "send_buf_used user \<le> sbs" and len: "length (send_buf user) = sbs"
  shows "send_buf_used user' \<le> sbs" and "length (send_buf user') = sbs"
    and "rc = EOK \<Longrightarrow> tx_stream user' = tx_stream user @ lf_to_crlf data"
proof -
  let ?u1 = "snd (convert_newlines (snd (malloc user)) data [])"
  from send_data_locked_Inr [OF run] have
    loop: "send_raw_loop sbs ?u1 (sbs - send_buf_used user) (lf_to_crlf data) = Some (rc, user')"
    by simp
  have u: "send_buf_used ?u1 = send_buf_used user" "send_buf ?u1 = send_buf user"
    "tx_stream ?u1 = tx_stream user"
    by (rule send_data_prepared; simp add: tx_stream_def)+
  from u used len have pre: "send_buf_used ?u1 + (sbs - send_buf_used user) = sbs"
    "length (send_buf ?u1) = sbs"
    by simp_all
  show "send_buf_used user' \<le> sbs"
    using send_raw_loop_used [OF loop pre(1)] .
  show "length (send_buf user') = sbs"
    using send_raw_loop_length [OF loop pre] .
  show "tx_stream user' = tx_stream user @ lf_to_crlf data" if "rc = EOK"
    using send_raw_loop_stream [OF loop pre that] u by simp
qed

lemma send_data_locked_returns:
  assumes "0 < sbs" and "fst (malloc user)" and "length (lf_to_crlf data) \<le> INT_MAX"
  shows "\<exists>rc user'. telnet_user_send_data_locked sbs user data = Some (Inr (rc, user'))"
proof -
  obtain ok user0 where m: "malloc user = (ok, user0)"
    by (cases "malloc user") auto
  obtain converted user1 where c: "convert_newlines user0 data [] = (converted, user1)"
    by (cases "convert_newlines user0 data []") auto
  have conv: "converted = lf_to_crlf data"
    using convert_newlines_converted [of user0 data "[]"] c by simp
  from send_raw_loop_returns [OF assms(1)] obtain r where
    "send_raw_loop sbs user1 (sbs - send_buf_used user1) converted = Some r"
    by blast
  with assms m c conv show ?thesis
    by (cases r)
      (auto simp: telnet_user_send_data_locked_def telnet_user_send_raw_locked_def)
qed

lemma send_data_locked_accepts:
  assumes run: "telnet_user_send_data_locked sbs user data = Some (Inr (rc, user'))"
    and acc: "tx_accepts user"
  shows "rc = EOK \<and> tx_accepts user'"
proof -
  let ?u1 = "snd (convert_newlines (snd (malloc user)) data [])"
  from send_data_locked_Inr [OF run] have
    loop: "send_raw_loop sbs ?u1 (sbs - send_buf_used user) (lf_to_crlf data) = Some (rc, user')"
    by simp
  have "tx_accepts ?u1 = tx_accepts user"
    by (rule send_data_prepared; simp add: tx_accepts_def)
  with acc send_raw_loop_accepts [OF loop] show ?thesis by simp
qed

lemma flush_stream:
  "telnet_user_flush user = (EOK, user') \<Longrightarrow>
     tx_wire (conn user') = tx_stream user \<and> send_buf_used user' = 0"
  by (auto simp: telnet_user_flush_def tx_stream_def dest: tcp_conn_send_ok
      split: prod.splits if_splits)

lemma flush_accepts:
  "tx_accepts user \<Longrightarrow> fst (telnet_user_flush user) = EOK"
  by (auto simp: telnet_user_flush_def tx_accepts_def tcp_conn_send_def
      split: prod.splits if_splits list.splits)

lemmas send_eval =
  telnet_user_send_data_def telnet_user_send_data_locked_def telnet_user_send_raw_def
  telnet_user_send_raw_locked_def send_raw_loop.simps send_buf_full_def send_buf_append_def
  malloc_def INT_MAX_def tcp_conn_send_def telnet_user_flush_def telnet_user_update_cursor_x_def
  new_user_def telnet_user_create_def word_sless_alt tx_stream_def tx_accepts_def lf_to_crlf_def

text \<open>
  Data that the counter can count. When \<open>telnet_user_send_data\<close> and the following
  \<open>telnet_user_flush\<close> both return \<open>EOK\<close>, the connection has accepted what had been
  submitted before, followed by the data with every LF replaced by CR LF. On a
  connection that accepts everything both calls do return \<open>EOK\<close> (the send buffer is not
  empty, the scratch buffer is allocated and the converted data can be counted by an
  \<^verbatim>\<open>int\<close>).
\<close>

theorem send_data_flush_wire:
  assumes "send_buf_used user \<le> sbs" and "length (send_buf user) = sbs"
  shows "(\<forall>user1 user2.
            telnet_user_send_data sbs user S = Some (Inr (EOK, user1)) \<longrightarrow>
            telnet_user_flush user1 = (EOK, user2) \<longrightarrow>
            tx_wire (conn user2) = tx_stream user @ lf_to_crlf S)
       \<and> (0 < sbs \<and> fst (malloc user) \<and> length (lf_to_crlf S) \<le> INT_MAX \<and> tx_accepts user \<longrightarrow>
            (\<exists>user1 user2.
               telnet_user_send_data sbs user S = Some (Inr (EOK, user1))
               \<and> telnet_user_flush user1 = (EOK, user2)))"
proof (intro conjI allI impI)
  fix user1 user2
  assume "telnet_user_send_data sbs user S = Some (Inr (EOK, user1))"
    and fl: "telnet_user_flush user1 = (EOK, user2)"
  then have "tx_stream user1 = tx_stream user @ lf_to_crlf S"
    using send_data_locked_stream(3) [of sbs user S EOK user1] assms
    by (simp add: telnet_user_send_data_def)
  with flush_stream [OF fl] show "tx_wire (conn user2) = tx_stream user @ lf_to_crlf S"
    by simp
next
  assume a: "0 < sbs \<and> fst (malloc user) \<and> length (lf_to_crlf S) \<le> INT_MAX \<and> tx_accepts user"
  then obtain rc user1 where
    run: "telnet_user_send_data_locked sbs user S = Some (Inr (rc, user1))"
    using send_data_locked_returns [of sbs user S] by blast
  from send_data_locked_accepts [OF run] a have ok: "rc = EOK" "tx_accepts user1"
    by simp_all
  from flush_accepts [OF ok(2)] obtain user2 where "telnet_user_flush user1 = (EOK, user2)"
    by (cases "telnet_user_flush user1") auto
  with run ok show "\<exists>user1 user2.
      telnet_user_send_data sbs user S = Some (Inr (EOK, user1))
      \<and> telnet_user_flush user1 = (EOK, user2)"
    by (auto simp: telnet_user_send_data_def)
qed

theorem send_data_flush_wire_witness:
  "send_buf_used (new_user 4 2 [] []) \<le> 2
   \<and> length (send_buf (new_user 4 2 [] [])) = 2
   \<and> telnet_user_send_data 2 (new_user 4 2 [] []) [0x61, 0x0A, 0x62]
       = Some (Inr (EOK, (new_user 4 2 [] [])
           \<lparr>conn := \<lparr>rx_events = [], tx_results = [], tx_wire = [0x61, 0x0D]\<rparr>,
            send_buf := [0x0A, 0x62], send_buf_used := 2, cursor_x := 1, cursor_y := 1\<rparr>))
   \<and> telnet_user_flush ((new_user 4 2 [] [])
           \<lparr>conn := \<lparr>rx_events = [], tx_results = [], tx_wire = [0x61, 0x0D]\<rparr>,
            send_buf := [0x0A, 0x62], send_buf_used := 2, cursor_x := 1, cursor_y := 1\<rparr>)
       = (EOK, (new_user 4 2 [] [])
           \<lparr>conn := \<lparr>rx_events = [], tx_results = [], tx_wire = [0x61, 0x0D, 0x0A, 0x62]\<rparr>,
            send_buf := [0x0A, 0x62], send_buf_used := 0, cursor_x := 1, cursor_y := 1\<rparr>)
   \<and> tx_wire (conn ((new_user 4 2 [] [])
           \<lparr>conn := \<lparr>rx_events = [], tx_results = [], tx_wire = [0x61, 0x0D, 0x0A, 0x62]\<rparr>,
            send_buf := [0x0A, 0x62], send_buf_used := 0, cursor_x := 1, cursor_y := 1\<rparr>))
       = [0x61, 0x0D, 0x0A, 0x62]
   \<and> tx_stream (new_user 4 2 [] []) @ lf_to_crlf [0x61, 0x0A, 0x62] = [0x61, 0x0D, 0x0A, 0x62]"
proof -
  let ?u = "new_user 4 2 [] []"
  let ?u1 = "?u\<lparr>conn := \<lparr>rx_events = [], tx_results = [], tx_wire = [0x61, 0x0D]\<rparr>,
            send_buf := [0x0A, 0x62], send_buf_used := 2, cursor_x := 1, cursor_y := 1\<rparr>"
  let ?u2 = "?u\<lparr>conn := \<lparr>rx_events = [], tx_results = [], tx_wire = [0x61, 0x0D, 0x0A, 0x62]\<rparr>,
            send_buf := [0x0A, 0x62], send_buf_used := 0, cursor_x := 1, cursor_y := 1\<rparr>"
  have used: "send_buf_used ?u \<le> 2" and len: "length (send_buf ?u) = 2"
    by (simp_all add: new_user_def telnet_user_create_def)
  have run1: "telnet_user_send_data 2 ?u [0x61, 0x0A, 0x62] = Some (Inr (EOK, ?u1))"
    by (simp add: send_eval)
  have run2: "telnet_user_flush ?u1 = (EOK, ?u2)"
    by (simp add: send_eval)
  have str: "tx_stream ?u @ lf_to_crlf [0x61, 0x0A, 0x62] = [0x61, 0x0D, 0x0A, 0x62]"
    by (simp add: send_eval)
  from send_data_flush_wire [OF used len, of "[0x61, 0x0A, 0x62]"] run1 run2
  have "tx_wire (conn ?u2) = tx_stream ?u @ lf_to_crlf [0x61, 0x0A, 0x62]"
    by blast
  with used len run1 run2 str show ?thesis
    by simp
qed

text \<open>Data that the counter cannot count: the call stops at the overflow.\<close>

lemma lf_to_crlf_line_feeds: "length (lf_to_crlf (replicate n 10)) = 2 * n"
  by (induction n) (simp_all add: lf_to_crlf_def)

lemma send_data_locked_overflow:
  assumes "fst (malloc user)" and "INT_MAX < length (lf_to_crlf data)"
  shows "telnet_user_send_data_locked sbs user data = Some (Inl Int_overflow)"
proof -
  obtain ok user0 where m: "malloc user = (ok, user0)"
    by (cases "malloc user") auto
  obtain converted user1 where c: "convert_newlines user0 data [] = (converted, user1)"
    by (cases "convert_newlines user0 data []") auto
  have "converted = lf_to_crlf data"
    using convert_newlines_converted [of user0 data "[]"] c by simp
  with assms m c show ?thesis
    by (simp add: telnet_user_send_data_locked_def)
qed

text \<open>
  C4: the data is \<open>2 ^ 30\<close> line feeds, on a new user. The converted data would be
  \<open>2 ^ 31\<close> bytes, one more than \<^verbatim>\<open>int converted_size\<close> can count:
  \<open>telnet_user_send_data\<close> does not put CR LF for every LF on the wire, it stops at the
  overflow of the counter.
\<close>

theorem send_data_counter_overflow:
  "telnet_user_send_data 4 (new_user 4 4 [] []) (replicate (2 ^ 30) 10) = Some (Inl Int_overflow)"
proof -
  have "fst (malloc (new_user 4 4 [] []))"
    by (simp add: malloc_def new_user_def telnet_user_create_def)
  moreover have "INT_MAX < length (lf_to_crlf (replicate (2 ^ 30) 10))"
    unfolding lf_to_crlf_line_feeds by (simp add: INT_MAX_def)
  ultimately show ?thesis
    unfolding telnet_user_send_data_def by (rule send_data_locked_overflow)
qed

text \<open>
  C6: the cursor after \<open>telnet_user_send_data\<close> is the cursor before it taken through
  the bytes of the data one by one, in order, by \<open>cursor_after_byte\<close>: a backspace takes
  one off the column with no bound at 0, a line feed sets the column to 0 and moves the
  row on while it is below \<open>rows - 1\<close>, and any other byte adds one to the column. This
  holds whatever the send returns. (\<open>rows\<close> fits an \<^verbatim>\<open>int\<close>.)
\<close>

theorem send_data_cursor:
  assumes "rows user < 2 ^ 31"
    and "telnet_user_send_data sbs user data = Some (Inr (rc, user'))"
  shows "(cursor_x user', cursor_y user')
       = foldl (cursor_after_byte (rows user)) (cursor_x user, cursor_y user) data"
proof -
  let ?u0 = "snd (malloc user)"
  let ?u1 = "snd (convert_newlines ?u0 data [])"
  from assms(2) have
    loop: "send_raw_loop sbs ?u1 (sbs - send_buf_used user) (lf_to_crlf data) = Some (rc, user')"
    using send_data_locked_Inr [of sbs user data rc user']
    by (simp add: telnet_user_send_data_def)
  have u0: "rows ?u0 = rows user" "cursor_x ?u0 = cursor_x user" "cursor_y ?u0 = cursor_y user"
    by (rule malloc_frame; simp)+
  have "(cursor_x user', cursor_y user') = (cursor_x ?u1, cursor_y ?u1)"
    using send_raw_loop_frame [OF loop send_frame_fields(1)]
      send_raw_loop_frame [OF loop send_frame_fields(2)] by simp
  also have "\<dots> = foldl (cursor_after_byte (rows ?u0)) (cursor_x ?u0, cursor_y ?u0) data"
    using assms(1) u0 by (intro convert_newlines_cursor) simp
  finally show ?thesis
    using u0 by simp
qed

theorem send_data_cursor_witness:
  "rows ((new_user 4 8 [] [])\<lparr>rows := 2\<rparr>) < 2 ^ 31
   \<and> telnet_user_send_data 8 ((new_user 4 8 [] [])\<lparr>rows := 2\<rparr>) [0x61, 10, 10, 8, 8]
       = Some (Inr (EOK, (new_user 4 8 [] [])
           \<lparr>send_buf := [0x61, 13, 10, 13, 10, 8, 8, 0], send_buf_used := 7,
            cursor_x := - 2, cursor_y := 1, rows := 2\<rparr>))
   \<and> foldl (cursor_after_byte 2) (0, 0) [0x61, 10, 10, 8, 8] = (- 2, 1)
   \<and> sint (- 2 :: cint) = - 2"
proof -
  let ?u = "(new_user 4 8 [] [])\<lparr>rows := 2\<rparr>"
  let ?u1 = "(new_user 4 8 [] [])
           \<lparr>send_buf := [0x61, 13, 10, 13, 10, 8, 8, 0], send_buf_used := 7,
            cursor_x := - 2, cursor_y := 1, rows := 2\<rparr>"
  have r: "rows ?u < 2 ^ 31"
    by simp
  have run: "telnet_user_send_data 8 ?u [0x61, 10, 10, 8, 8] = Some (Inr (EOK, ?u1))"
    by (simp add: send_eval)
  from send_data_cursor [OF r run]
  have "foldl (cursor_after_byte 2) (0, 0) [0x61, 10, 10, 8, 8] = (- 2, 1)"
    by (simp add: new_user_def telnet_user_create_def)
  with r run show ?thesis
    by simp
qed

text \<open>
  C10: \<open>telnet_user_flush\<close> returns what the send of the batch returns. When that is an
  error, \<open>send_buf_used\<close> and the buffer are as before the call; \<open>send_buf_used\<close> is set
  to 0 exactly when the call returns \<open>EOK\<close>.
\<close>

theorem flush_keeps_batch_on_error:
  assumes "telnet_user_flush user = (rc, user')"
  shows "rc = fst (tcp_conn_send (conn user) (take (send_buf_used user) (send_buf user)))
       \<and> send_buf user' = send_buf user
       \<and> (rc \<noteq> EOK \<longrightarrow> send_buf_used user' = send_buf_used user)
       \<and> (rc = EOK \<longrightarrow> send_buf_used user' = 0)"
  using assms by (auto simp: telnet_user_flush_def split: prod.splits if_splits)

theorem flush_keeps_batch_on_error_witness:
  "telnet_user_flush ((new_user 4 4 [] [Errno 5, EOK])\<lparr>send_buf := [1, 2, 3, 0], send_buf_used := 3\<rparr>)
     = (Errno 5, (new_user 4 4 [] [EOK])\<lparr>send_buf := [1, 2, 3, 0], send_buf_used := 3\<rparr>)
   \<and> Errno 5 \<noteq> EOK
   \<and> telnet_user_flush ((new_user 4 4 [] [EOK])\<lparr>send_buf := [1, 2, 3, 0], send_buf_used := 3\<rparr>)
     = (EOK, (new_user 4 4 [] [])
          \<lparr>conn := \<lparr>rx_events = [], tx_results = [], tx_wire = [1, 2, 3]\<rparr>,
           send_buf := [1, 2, 3, 0], send_buf_used := 0\<rparr>)
   \<and> send_buf_used ((new_user 4 4 [] [EOK])\<lparr>send_buf := [1, 2, 3, 0], send_buf_used := 3\<rparr>) = 3"
proof -
  let ?u = "(new_user 4 4 [] [Errno 5, EOK])\<lparr>send_buf := [1, 2, 3, 0], send_buf_used := 3\<rparr>"
  let ?u1 = "(new_user 4 4 [] [EOK])\<lparr>send_buf := [1, 2, 3, 0], send_buf_used := 3\<rparr>"
  let ?u2 = "(new_user 4 4 [] [])
          \<lparr>conn := \<lparr>rx_events = [], tx_results = [], tx_wire = [1, 2, 3]\<rparr>,
           send_buf := [1, 2, 3, 0], send_buf_used := 0\<rparr>"
  have run1: "telnet_user_flush ?u = (Errno 5, ?u1)"
    by (simp add: send_eval)
  have run2: "telnet_user_flush ?u1 = (EOK, ?u2)"
    by (simp add: send_eval)
  from flush_keeps_batch_on_error [OF run1] flush_keeps_batch_on_error [OF run2] run1 run2
  show ?thesis
    by simp
qed

text \<open>When the loop fails, a proper prefix of the data has been submitted.\<close>

lemma send_raw_loop_fail_stream:
  "send_raw_loop sbs user remain data = Some (rc, user') \<Longrightarrow>
     send_buf_used user + remain = sbs \<Longrightarrow> length (send_buf user) = sbs \<Longrightarrow>
     rc \<noteq> EOK \<Longrightarrow>
     \<exists>k < length data. tx_stream user' = tx_stream user @ take k data"
proof (induction rule: send_raw_loop_cases)
  case (stop user remain)
  then show ?case by simp
next
  case (fail user remain data rc user1 remain1)
  from send_buf_full_fail [OF fail(2) fail(3)] have "tx_stream user1 = tx_stream user"
    by (simp add: tx_stream_def)
  with fail(1) show ?case
    by (intro exI [of _ 0]) simp
next
  case (step user remain data user1 remain1 now rc user')
  from send_buf_full_used [OF step(2) step(5)] step(6)
  have u1: "send_buf_used user1 + remain1 = sbs" "length (send_buf user1) = sbs"
    by simp_all
  with step(3)
  have "send_buf_used (send_buf_append user1 (take now data)) + (remain1 - now) = sbs"
    and "length (send_buf (send_buf_append user1 (take now data))) = sbs"
    by (auto simp: send_buf_append_def)
  with step(4) step(7) obtain k where k: "k < length (drop now data)"
    and s: "tx_stream user'
        = tx_stream (send_buf_append user1 (take now data)) @ take k (drop now data)"
    by blast
  have "tx_stream (send_buf_append user1 (take now data)) = tx_stream user1 @ take now data"
    using u1 by (intro send_buf_append_stream) simp
  moreover have "tx_stream user1 = tx_stream user"
    using send_buf_full_stream [OF step(2) step(5)] .
  moreover have "take now data @ take k (drop now data) = take (now + k) data"
    by (simp add: take_add)
  ultimately have "tx_stream user' = tx_stream user @ take (now + k) data"
    using s by simp
  moreover from k have "now + k < length data"
    by simp
  ultimately show ?case by blast
qed

lemma send_data_locked_fail_stream:
  assumes run: "telnet_user_send_data_locked sbs user data = Some (Inr (rc, user'))"
    and used: "send_buf_used user \<le> sbs" and len: "length (send_buf user) = sbs"
    and rc: "rc \<noteq> EOK"
  shows "\<exists>k < length (lf_to_crlf data). tx_stream user' = tx_stream user @ take k (lf_to_crlf data)"
proof -
  let ?u1 = "snd (convert_newlines (snd (malloc user)) data [])"
  from send_data_locked_Inr [OF run] have
    loop: "send_raw_loop sbs ?u1 (sbs - send_buf_used user) (lf_to_crlf data) = Some (rc, user')"
    by simp
  have u: "send_buf_used ?u1 = send_buf_used user" "send_buf ?u1 = send_buf user"
    "tx_stream ?u1 = tx_stream user"
    by (rule send_data_prepared; simp add: tx_stream_def)+
  from u used len have pre: "send_buf_used ?u1 + (sbs - send_buf_used user) = sbs"
    "length (send_buf ?u1) = sbs"
    by simp_all
  from send_raw_loop_fail_stream [OF loop pre rc] u show ?thesis
    by simp
qed

text \<open>
  C7: \<open>telnet_user_update_cursor_x\<close> leaves \<open>cursor_x = new_x\<close>. When \<open>new_x\<close> is not
  \<open>cursor_x - 1\<close> nothing else changes. When it is, the single byte 8 is given to
  \<open>telnet_user_send_data_locked\<close>: it is appended to the bytes submitted, unless the send
  fails (the buffer was full and the connection refused it), which is ignored. The call
  returns when the send buffer is not empty and the scratch buffer is allocated.
\<close>

theorem update_cursor_x_backspace:
  assumes "send_buf_used user \<le> sbs" and "length (send_buf user) = sbs"
  shows "(\<forall>user'. telnet_user_update_cursor_x sbs user new_x = Some (Inr user') \<longrightarrow>
            cursor_x user' = new_x
            \<and> (new_x \<noteq> cursor_x user - 1 \<longrightarrow> user' = user\<lparr>cursor_x := new_x\<rparr>)
            \<and> (new_x = cursor_x user - 1 \<longrightarrow>
                 (\<exists>rc user1.
                    telnet_user_send_data_locked sbs user [8] = Some (Inr (rc, user1))
                    \<and> user' = user1\<lparr>cursor_x := new_x\<rparr>
                    \<and> tx_stream user' = tx_stream user @ (if rc = EOK then [8] else []))))
       \<and> (0 < sbs \<and> fst (malloc user) \<longrightarrow>
            (\<exists>user'. telnet_user_update_cursor_x sbs user new_x = Some (Inr user')))"
proof (intro conjI allI impI)
  fix user'
  assume run: "telnet_user_update_cursor_x sbs user new_x = Some (Inr user')"
  then show "cursor_x user' = new_x"
    by (auto simp: telnet_user_update_cursor_x_def split: if_splits option.splits sum.splits)
  show "user' = user\<lparr>cursor_x := new_x\<rparr>" if "new_x \<noteq> cursor_x user - 1"
    using run that by (auto simp: telnet_user_update_cursor_x_def)
  show "\<exists>rc user1.
      telnet_user_send_data_locked sbs user [8] = Some (Inr (rc, user1))
      \<and> user' = user1\<lparr>cursor_x := new_x\<rparr>
      \<and> tx_stream user' = tx_stream user @ (if rc = EOK then [8] else [])"
    if "new_x = cursor_x user - 1"
  proof -
    from run that obtain rc user1 where
      sd: "telnet_user_send_data_locked sbs user [8] = Some (Inr (rc, user1))"
      and u: "user' = user1\<lparr>cursor_x := new_x\<rparr>"
      by (auto simp: telnet_user_update_cursor_x_def split: option.splits sum.splits)
    have "tx_stream user1 = tx_stream user @ (if rc = EOK then [8] else [])"
    proof (cases "rc = EOK")
      case True
      with send_data_locked_stream(3) [OF sd assms] show ?thesis
        by (simp add: lf_to_crlf_def)
    next
      case False
      with send_data_locked_fail_stream [OF sd assms] show ?thesis
        by (auto simp: lf_to_crlf_def)
    qed
    with sd u show ?thesis
      by (simp add: tx_stream_def)
  qed
next
  assume a: "0 < sbs \<and> fst (malloc user)"
  have "length (lf_to_crlf [8]) \<le> INT_MAX"
    by (simp add: lf_to_crlf_def INT_MAX_def)
  with a send_data_locked_returns [of sbs user "[8]"] obtain rc user1 where
    "telnet_user_send_data_locked sbs user [8] = Some (Inr (rc, user1))"
    by blast
  then show "\<exists>user'. telnet_user_update_cursor_x sbs user new_x = Some (Inr user')"
    by (simp add: telnet_user_update_cursor_x_def)
qed

lemma replicate_numeral: "replicate (numeral k) x = x # replicate (pred_numeral k) x"
  by (simp add: numeral_eq_Suc)

theorem update_cursor_x_backspace_witness:
  "send_buf_used ((new_user 4 4 [] [])\<lparr>cursor_x := 5\<rparr>) \<le> 4
   \<and> length (send_buf ((new_user 4 4 [] [])\<lparr>cursor_x := 5\<rparr>)) = 4
   \<and> (5 :: cint) - 1 = 4
   \<and> telnet_user_update_cursor_x 4 ((new_user 4 4 [] [])\<lparr>cursor_x := 5\<rparr>) 4
       = Some (Inr ((new_user 4 4 [] [])
           \<lparr>send_buf := [8, 0, 0, 0], send_buf_used := 1, cursor_x := 4\<rparr>))
   \<and> telnet_user_send_data_locked 4 ((new_user 4 4 [] [])\<lparr>cursor_x := 5\<rparr>) [8]
       = Some (Inr (EOK, (new_user 4 4 [] [])
           \<lparr>send_buf := [8, 0, 0, 0], send_buf_used := 1, cursor_x := 4\<rparr>))
   \<and> tx_stream ((new_user 4 4 [] [])
           \<lparr>send_buf := [8, 0, 0, 0], send_buf_used := 1, cursor_x := 4\<rparr>) = [8]
   \<and> (6 :: cint) \<noteq> 5 - 1
   \<and> telnet_user_update_cursor_x 4 ((new_user 4 4 [] [])\<lparr>cursor_x := 5\<rparr>) 6
       = Some (Inr ((new_user 4 4 [] [])\<lparr>cursor_x := 6\<rparr>))"
proof -
  let ?u = "(new_user 4 4 [] [])\<lparr>cursor_x := 5\<rparr>"
  let ?u1 = "(new_user 4 4 [] [])\<lparr>send_buf := [8, 0, 0, 0], send_buf_used := 1, cursor_x := 4\<rparr>"
  have used: "send_buf_used ?u \<le> 4" and len: "length (send_buf ?u) = 4"
    by (simp_all add: new_user_def telnet_user_create_def)
  have run: "telnet_user_update_cursor_x 4 ?u 4 = Some (Inr ?u1)"
    by (simp add: send_eval replicate_numeral)
  have sd: "telnet_user_send_data_locked 4 ?u [8] = Some (Inr (EOK, ?u1))"
    by (simp add: send_eval replicate_numeral)
  have run6: "telnet_user_update_cursor_x 4 ?u 6 = Some (Inr ((new_user 4 4 [] [])\<lparr>cursor_x := 6\<rparr>))"
    by (simp add: send_eval)
  from update_cursor_x_backspace [OF used len, of 4] run sd
  have "tx_stream ?u1 = tx_stream ?u @ [8]"
    by (simp add: new_user_def telnet_user_create_def)
  then have "tx_stream ?u1 = [8]"
    by (simp add: send_eval)
  with used len run sd run6 show ?thesis
    by simp
qed

subsection \<open>Lookup of a user for a client connection\<close>

lemma users_find_Some:
  "users_find users i ident = Some k \<Longrightarrow>
     i \<le> k \<and> k - i < length users \<and> service_id (users ! (k - i)) = ident
       \<and> (\<forall>j < k - i. service_id (users ! j) \<noteq> ident)"
proof (induction users i ident rule: users_find.induct)
  case (1 i ident)
  then show ?case by simp
next
  case (2 tmp rest i ident)
  show ?case
  proof (cases "service_id tmp = ident")
    case True
    with 2 show ?thesis by simp
  next
    case False
    with 2 have ih: "Suc i \<le> k \<and> k - Suc i < length rest
        \<and> service_id (rest ! (k - Suc i)) = ident
        \<and> (\<forall>j < k - Suc i. service_id (rest ! j) \<noteq> ident)"
      by simp
    then have k: "k - i = Suc (k - Suc i)"
      by arith
    from ih False show ?thesis
      unfolding k by (auto simp: nth_Cons split: nat.splits)
  qed
qed

text \<open>
  What the lookup does when it finds a user: the counter goes up by one; a live user is
  returned, and for a zombie the call stops at the null pointer with the counter still
  raised.
\<close>

lemma get_for_client_connection_found:
  assumes "users_find users 0 ident = Some k"
  shows "telnet_user_get_for_client_connection users ident =
     (if telnet_user_is_zombie (users ! k) then Inl Null_deref else Inr (Some k),
      users[k := (users ! k)\<lparr>locsrv_connection_count :=
                                locsrv_connection_count (users ! k) + 1\<rparr>])"
  using assms
  by (auto simp: telnet_user_get_for_client_connection_def telnet_user_is_zombie_def Let_def)

lemma get_for_client_connection_not_found:
  "users_find users 0 ident = None \<Longrightarrow>
     telnet_user_get_for_client_connection users ident = (Inr None, users)"
  by (simp add: telnet_user_get_for_client_connection_def)

text \<open>
  C1: the lookup of a zombie. The list holds one user with service id 7 whose socket is
  closed and who has no client. The lookup does not return \<^verbatim>\<open>NULL\<close>: it stops at the
  null pointer, and the counter of the user is 1.
\<close>

theorem zombie_lookup_stops_at_null:
  "telnet_user_get_for_client_connection
     [(new_user 4 4 [] [])\<lparr>service_id := 7, socket_closed := True\<rparr>] 7
   = (Inl Null_deref,
      [(new_user 4 4 [] [])\<lparr>service_id := 7, socket_closed := True,
                             locsrv_connection_count := 1\<rparr>])"
  by (simp add: telnet_user_get_for_client_connection_def new_user_def telnet_user_create_def)

subsection \<open>A command across two fills\<close>

text \<open>The four bytes IAC DO 0x18 'A' in one fill: the command is skipped.\<close>

lemma recv_command_in_one_fill:
  "telnet_user_recv (new_user 4 4 [Tcp_data [0xFF, 0xFD, 0x18, 0x41]] []) 4
   = Some (Inr (EOK, [0x41],
       (new_user 4 4 [] [])\<lparr>socket_buffer := [0xFF, 0xFD, 0x18, 0x41], socket_buffer_len := 4,
          socket_buffer_pos := 4, log_lines := [(0xFD, 0x18)]\<rparr>))"
  by (simp add: recv_eval)

text \<open>
  C2: the same four bytes in two fills, IAC alone and then DO 0x18 'A'. The call returns
  three bytes, 0xFD 0x18 'A': the round of the outer loop that read IAC ends when the
  buffer is drained, and the next round starts with \<open>inside_telnet_command = false\<close>.
\<close>

theorem recv_iac_at_end_of_fill:
  "telnet_user_recv (new_user 4 4 [Tcp_data [0xFF], Tcp_data [0xFD, 0x18, 0x41]] []) 4
   = Some (Inr (EOK, [0xFD, 0x18, 0x41],
       (new_user 4 4 [] [])\<lparr>socket_buffer := [0xFD, 0x18, 0x41, 0], socket_buffer_len := 3,
          socket_buffer_pos := 3\<rparr>))"
  by (simp add: recv_eval replicate_numeral)

text \<open>The split after IAC DO: the option byte 0x18 is delivered as data.\<close>

lemma recv_iac_do_at_end_of_fill:
  "telnet_user_recv (new_user 4 4 [Tcp_data [0xFF, 0xFD], Tcp_data [0x18, 0x41]] []) 4
   = Some (Inr (EOK, [0x18, 0x41],
       (new_user 4 4 [] [])\<lparr>socket_buffer := [0x18, 0x41, 0, 0], socket_buffer_len := 2,
          socket_buffer_pos := 2\<rparr>))"
  by (simp add: recv_eval replicate_numeral)

subsection \<open>The indices of the two buffers\<close>

lemma recv_next_byte_ok:
  "telnet_user_recv_next_byte_locked user b = Some (rc, b', user') \<Longrightarrow> recv_ok cap user \<Longrightarrow>
     recv_ok cap user' \<and> send_buf_used user' = send_buf_used user"
  by (auto simp: telnet_user_recv_next_byte_locked_def telnet_user_fill_recv_buf_def
      tcp_conn_recv_wait_def recv_ok_def tcp_within_cap_def Let_def Suc_le_eq
      split: if_splits option.splits list.splits tcp_event.splits)

lemma skip_telnet_command_ok:
  "skip_telnet_command user i oc b = (i', oc', nb', user') \<Longrightarrow>
     recv_ok cap user' = recv_ok cap user \<and> send_buf_used user' = send_buf_used user"
  by (auto simp: skip_telnet_command_def process_telnet_command_def recv_ok_def
      tcp_within_cap_def Let_def split: if_splits)

lemma recv_skip_zeros_ok:
  "recv_skip_zeros user i oc nb = Some (rc, nb', user') \<Longrightarrow> recv_ok cap user \<Longrightarrow>
     recv_ok cap user' \<and> send_buf_used user' = send_buf_used user"
proof (induction rule: recv_skip_zeros_cases)
  case (err user i oc nb rc byte user1)
  then show ?case using recv_next_byte_ok by blast
next
  case (last user i oc nb byte user1 i2 oc2 nb2 user2)
  then show ?case
    using recv_next_byte_ok [of user nb EOK byte user1 cap]
      skip_telnet_command_ok [of user1 i oc byte i2 oc2 nb2 user2 cap] by simp
next
  case (again user i oc nb byte user1 i2 oc2 user2 rc nb' user')
  then show ?case
    using recv_next_byte_ok [of user nb EOK byte user1 cap]
      skip_telnet_command_ok [of user1 i oc byte i2 oc2 0 user2 cap] by simp
qed

lemma recv_loop_ok:
  "recv_loop user sz buf = Some (rc, buf', user') \<Longrightarrow> recv_ok cap user \<Longrightarrow>
     recv_ok cap user' \<and> send_buf_used user' = send_buf_used user"
proof (induction rule: recv_loop_cases)
  case (err user sz buf rc nb user1)
  then show ?case using recv_skip_zeros_ok by blast
next
  case (last user sz buf nb user1 buf1 sz1)
  then show ?case using recv_skip_zeros_ok by blast
next
  case (again user sz buf nb user1 buf1 sz1 rc buf' user')
  then show ?case
    using recv_skip_zeros_ok [of user False 0 0 EOK nb user1 cap] by simp
qed

lemma recv_buffers_ok:
  assumes "telnet_user_recv user sz = Some (Inr (rc, buf, user'))"
    and "buffers_ok bsz sbs user" and "tcp_within_cap bsz user"
  shows "buffers_ok bsz sbs user' \<and> tcp_within_cap bsz user'"
proof -
  from assms(1) have "recv_loop user sz [] = Some (rc, buf, user')"
    by (auto simp: telnet_user_recv_def split: if_splits option.splits)
  from recv_loop_ok [OF this, of bsz] assms(2,3) show ?thesis
    by (simp add: buffers_ok_def recv_ok_def)
qed

lemma tcp_conn_send_rx:
  "rx_events (snd (tcp_conn_send c bs)) = rx_events c"
  by (simp add: tcp_conn_send_def split: list.splits)

lemma send_buf_full_rx:
  "send_buf_full sbs user remain = (rc, user1, remain1) \<Longrightarrow>
     rx_events (conn user1) = rx_events (conn user)"
  using tcp_conn_send_rx [of "conn user" "take sbs (send_buf user)"]
  by (auto simp: send_buf_full_def split: if_splits prod.splits)

lemma send_raw_loop_rx:
  "send_raw_loop sbs user remain data = Some (rc, user') \<Longrightarrow>
     rx_events (conn user') = rx_events (conn user)"
proof (induction rule: send_raw_loop_cases)
  case (stop user remain)
  then show ?case by simp
next
  case (fail user remain data rc user1 remain1)
  then show ?case using send_buf_full_rx by blast
next
  case (step user remain data user1 remain1 now rc user')
  then show ?case
    using send_buf_full_rx [of sbs user remain EOK user1 remain1]
    by (simp add: send_buf_append_def)
qed

lemma send_raw_locked_buffers_ok:
  assumes "telnet_user_send_raw_locked sbs user data = Some (rc, user')"
    and "buffers_ok bsz sbs user"
  shows "buffers_ok bsz sbs user' \<and> tcp_within_cap bsz user' = tcp_within_cap bsz user"
proof -
  from assms(1) have
    loop: "send_raw_loop sbs user (sbs - send_buf_used user) data = Some (rc, user')"
    by (simp add: telnet_user_send_raw_locked_def)
  from assms(2) have "send_buf_used user + (sbs - send_buf_used user) = sbs"
    by (simp add: buffers_ok_def)
  from send_raw_loop_used [OF loop this] have "send_buf_used user' \<le> sbs" .
  moreover have "socket_buffer_pos user' = socket_buffer_pos user"
    "socket_buffer_len user' = socket_buffer_len user"
    by (rule send_raw_loop_frame [OF loop]; simp add: send_frame_def)+
  moreover have "tcp_within_cap bsz user' = tcp_within_cap bsz user"
    using send_raw_loop_rx [OF loop] by (simp add: tcp_within_cap_def)
  ultimately show ?thesis
    using assms(2) by (simp add: buffers_ok_def)
qed

lemma send_data_locked_buffers_ok:
  assumes run: "telnet_user_send_data_locked sbs user data = Some (Inr (rc, user'))"
    and ok: "buffers_ok bsz sbs user"
  shows "buffers_ok bsz sbs user' \<and> tcp_within_cap bsz user' = tcp_within_cap bsz user"
proof -
  let ?u1 = "snd (convert_newlines (snd (malloc user)) data [])"
  from send_data_locked_Inr [OF run] have
    loop: "send_raw_loop sbs ?u1 (sbs - send_buf_used user) (lf_to_crlf data) = Some (rc, user')"
    by simp
  have u1: "send_buf_used ?u1 = send_buf_used user"
    "socket_buffer_pos ?u1 = socket_buffer_pos user"
    "socket_buffer_len ?u1 = socket_buffer_len user"
    "rx_events (conn ?u1) = rx_events (conn user)"
    by (rule send_data_prepared; simp)+
  from ok u1 have "send_buf_used ?u1 + (sbs - send_buf_used user) = sbs"
    by (simp add: buffers_ok_def)
  from send_raw_loop_used [OF loop this] have "send_buf_used user' \<le> sbs" .
  moreover have "socket_buffer_pos user' = socket_buffer_pos ?u1"
    "socket_buffer_len user' = socket_buffer_len ?u1"
    by (rule send_raw_loop_frame [OF loop]; simp add: send_frame_def)+
  moreover have "tcp_within_cap bsz user' = tcp_within_cap bsz user"
    using send_raw_loop_rx [OF loop] u1 by (simp add: tcp_within_cap_def)
  ultimately show ?thesis
    using ok u1 by (simp add: buffers_ok_def)
qed

lemma flush_buffers_ok:
  assumes "buffers_ok bsz sbs user"
  shows "buffers_ok bsz sbs (snd (telnet_user_flush user))
       \<and> tcp_within_cap bsz (snd (telnet_user_flush user)) = tcp_within_cap bsz user"
  using assms tcp_conn_send_rx [of "conn user" "take (send_buf_used user) (send_buf user)"]
  by (auto simp: telnet_user_flush_def buffers_ok_def tcp_within_cap_def
      split: prod.splits if_splits)

text \<open>
  C9: each operation of a session that returns leaves the indices within their bounds
  when they were so before the call: \<open>socket_buffer_pos \<le> socket_buffer_len \<le>\<close>
  \<^verbatim>\<open>BUFFER_SIZE\<close> and \<open>send_buf_used \<le>\<close> \<^verbatim>\<open>SEND_BUF_SIZE\<close>. For
  \<open>telnet_user_recv\<close> the transport is taken to report at most as many bytes as the
  capacity it is called with; no operation changes that.
\<close>

theorem operations_keep_buffers_ok:
  assumes "buffers_ok bsz sbs user"
  shows "(\<forall>sz rc buf user'. tcp_within_cap bsz user \<longrightarrow>
            telnet_user_recv user sz = Some (Inr (rc, buf, user')) \<longrightarrow>
            buffers_ok bsz sbs user' \<and> tcp_within_cap bsz user')
       \<and> (\<forall>data rc user'. telnet_user_send_data sbs user data = Some (Inr (rc, user')) \<longrightarrow>
            buffers_ok bsz sbs user' \<and> tcp_within_cap bsz user' = tcp_within_cap bsz user)
       \<and> (\<forall>data rc user'. telnet_user_send_raw sbs user data = Some (Inr (rc, user')) \<longrightarrow>
            buffers_ok bsz sbs user' \<and> tcp_within_cap bsz user' = tcp_within_cap bsz user)
       \<and> (\<forall>rc user'. telnet_user_flush user = (rc, user') \<longrightarrow>
            buffers_ok bsz sbs user' \<and> tcp_within_cap bsz user' = tcp_within_cap bsz user)
       \<and> (\<forall>new_x user'. telnet_user_update_cursor_x sbs user new_x = Some (Inr user') \<longrightarrow>
            buffers_ok bsz sbs user' \<and> tcp_within_cap bsz user' = tcp_within_cap bsz user)"
proof (intro conjI allI impI)
  fix sz rc buf user'
  assume "tcp_within_cap bsz user"
    and "telnet_user_recv user sz = Some (Inr (rc, buf, user'))"
  from recv_buffers_ok [OF this(2) assms this(1)]
  show "buffers_ok bsz sbs user'" and "tcp_within_cap bsz user'"
    by simp_all
next
  fix data rc user'
  assume "telnet_user_send_data sbs user data = Some (Inr (rc, user'))"
  then have "telnet_user_send_data_locked sbs user data = Some (Inr (rc, user'))"
    by (simp add: telnet_user_send_data_def)
  from send_data_locked_buffers_ok [OF this assms]
  show "buffers_ok bsz sbs user'" and "tcp_within_cap bsz user' = tcp_within_cap bsz user"
    by simp_all
next
  fix data rc user'
  assume "telnet_user_send_raw sbs user data = Some (Inr (rc, user'))"
  then have "telnet_user_send_raw_locked sbs user data = Some (rc, user')"
    by (auto simp: telnet_user_send_raw_def split: option.splits)
  from send_raw_locked_buffers_ok [OF this assms]
  show "buffers_ok bsz sbs user'" and "tcp_within_cap bsz user' = tcp_within_cap bsz user"
    by simp_all
next
  fix rc user'
  assume "telnet_user_flush user = (rc, user')"
  with flush_buffers_ok [OF assms]
  show "buffers_ok bsz sbs user'" and "tcp_within_cap bsz user' = tcp_within_cap bsz user"
    by simp_all
next
  fix new_x user'
  assume run: "telnet_user_update_cursor_x sbs user new_x = Some (Inr user')"
  have "buffers_ok bsz sbs user' \<and> tcp_within_cap bsz user' = tcp_within_cap bsz user"
  proof (cases "cursor_x user - 1 = new_x")
    case True
    with run obtain rc user1 where
      sd: "telnet_user_send_data_locked sbs user [8] = Some (Inr (rc, user1))"
      and u: "user' = user1\<lparr>cursor_x := new_x\<rparr>"
      by (auto simp: telnet_user_update_cursor_x_def split: option.splits sum.splits)
    from send_data_locked_buffers_ok [OF sd assms] u show ?thesis
      by (simp add: buffers_ok_def tcp_within_cap_def)
  next
    case False
    with run have "user' = user\<lparr>cursor_x := new_x\<rparr>"
      by (simp add: telnet_user_update_cursor_x_def)
    with assms show ?thesis
      by (simp add: buffers_ok_def tcp_within_cap_def)
  qed
  then show "buffers_ok bsz sbs user'" and "tcp_within_cap bsz user' = tcp_within_cap bsz user"
    by simp_all
qed

theorem operations_keep_buffers_ok_witness:
  "buffers_ok 4 4 ((new_user 4 4 [Tcp_data [0x61, 0x0D, 0xFF, 0xF1]] [])
      \<lparr>send_buf := [1, 2, 3, 0], send_buf_used := 3\<rparr>)
   \<and> tcp_within_cap 4 ((new_user 4 4 [Tcp_data [0x61, 0x0D, 0xFF, 0xF1]] [])
      \<lparr>send_buf := [1, 2, 3, 0], send_buf_used := 3\<rparr>)
   \<and> telnet_user_recv ((new_user 4 4 [Tcp_data [0x61, 0x0D, 0xFF, 0xF1]] [])
      \<lparr>send_buf := [1, 2, 3, 0], send_buf_used := 3\<rparr>) 2
      = Some (Inr (EOK, [0x61, 0x0A], (new_user 4 4 [] [])
          \<lparr>socket_buffer := [0x61, 0x0D, 0xFF, 0xF1], socket_buffer_len := 4,
           socket_buffer_pos := 2, send_buf := [1, 2, 3, 0], send_buf_used := 3\<rparr>))
   \<and> buffers_ok 4 4 ((new_user 4 4 [] [])
          \<lparr>socket_buffer := [0x61, 0x0D, 0xFF, 0xF1], socket_buffer_len := 4,
           socket_buffer_pos := 2, send_buf := [1, 2, 3, 0], send_buf_used := 3\<rparr>)
   \<and> telnet_user_send_data 4 ((new_user 4 4 [Tcp_data [0x61, 0x0D, 0xFF, 0xF1]] [])
      \<lparr>send_buf := [1, 2, 3, 0], send_buf_used := 3\<rparr>) [10, 0x62]
      = Some (Inr (EOK, (new_user 4 4 [Tcp_data [0x61, 0x0D, 0xFF, 0xF1]] [])
          \<lparr>conn := \<lparr>rx_events = [Tcp_data [0x61, 0x0D, 0xFF, 0xF1]], tx_results = [],
                     tx_wire = [1, 2, 3, 13]\<rparr>,
           send_buf := [10, 0x62, 3, 13], send_buf_used := 2, cursor_x := 1, cursor_y := 1\<rparr>))
   \<and> buffers_ok 4 4 ((new_user 4 4 [Tcp_data [0x61, 0x0D, 0xFF, 0xF1]] [])
          \<lparr>conn := \<lparr>rx_events = [Tcp_data [0x61, 0x0D, 0xFF, 0xF1]], tx_results = [],
                     tx_wire = [1, 2, 3, 13]\<rparr>,
           send_buf := [10, 0x62, 3, 13], send_buf_used := 2, cursor_x := 1, cursor_y := 1\<rparr>)"
proof -
  let ?u = "(new_user 4 4 [Tcp_data [0x61, 0x0D, 0xFF, 0xF1]] [])
      \<lparr>send_buf := [1, 2, 3, 0], send_buf_used := 3\<rparr>"
  let ?r = "(new_user 4 4 [] [])
          \<lparr>socket_buffer := [0x61, 0x0D, 0xFF, 0xF1], socket_buffer_len := 4,
           socket_buffer_pos := 2, send_buf := [1, 2, 3, 0], send_buf_used := 3\<rparr>"
  let ?s = "(new_user 4 4 [Tcp_data [0x61, 0x0D, 0xFF, 0xF1]] [])
          \<lparr>conn := \<lparr>rx_events = [Tcp_data [0x61, 0x0D, 0xFF, 0xF1]], tx_results = [],
                     tx_wire = [1, 2, 3, 13]\<rparr>,
           send_buf := [10, 0x62, 3, 13], send_buf_used := 2, cursor_x := 1, cursor_y := 1\<rparr>"
  have ok: "buffers_ok 4 4 ?u" and cap: "tcp_within_cap 4 ?u"
    by (simp_all add: buffers_ok_def tcp_within_cap_def new_user_def telnet_user_create_def)
  have rcv: "telnet_user_recv ?u 2 = Some (Inr (EOK, [0x61, 0x0A], ?r))"
    by (simp add: recv_eval)
  have sent: "telnet_user_send_data 4 ?u [10, 0x62] = Some (Inr (EOK, ?s))"
    by (simp add: send_eval)
  from operations_keep_buffers_ok [OF ok] cap rcv sent
  have "buffers_ok 4 4 ?r" and "buffers_ok 4 4 ?s"
    by blast+
  with ok cap rcv sent show ?thesis
    by simp
qed

subsection \<open>Peer close\<close>


lemma fill_recv_buf_error:
  "rx_events (conn user) = Tcp_error rc # es \<Longrightarrow> rc \<noteq> EOK \<Longrightarrow>
     telnet_user_fill_recv_buf user = Some (rc, user\<lparr>conn := (conn user)\<lparr>rx_events := es\<rparr>\<rparr>)"
  by (simp add: telnet_user_fill_recv_buf_def tcp_conn_recv_wait_def)







lemma send_data_locked_closed:
  assumes "telnet_user_send_data_locked sbs user data = Some (Inr (rc, user'))"
  shows "socket_closed user' = socket_closed user"
proof -
  let ?u1 = "snd (convert_newlines (snd (malloc user)) data [])"
  from send_data_locked_Inr [OF assms] have
    loop: "send_raw_loop sbs ?u1 (sbs - send_buf_used user) (lf_to_crlf data) = Some (rc, user')"
    by simp
  have "socket_closed ?u1 = socket_closed user"
    by (rule send_data_prepared; simp)
  with send_raw_loop_frame [OF loop send_frame_fields(4)] show ?thesis
    by simp
qed




















end
